theory Spec2Isabelle
  imports Main "HOL-Library.Word"
begin

section \<open>Data model of \<^verbatim>\<open>src/useeplus_camera.c\<close>\<close>

text \<open>
  Bytes are 8-bit words. Buffer sizes and ring indices are natural numbers: every size
  in the source is bounded by \<^verbatim>\<open>BUFFER_SIZE\<close> and every index is the result of
  \<^verbatim>\<open>% MAX_FRAMES\<close>, so no \<^verbatim>\<open>size_t\<close> or \<^verbatim>\<open>int\<close>
  operation of the modelled functions can wrap. The two statistics counters are
  \<^verbatim>\<open>unsigned int\<close> and are incremented without bound, so they are 32-bit words.
\<close>

type_synonym byte = "8 word"
type_synonym dword = "32 word"

definition BUFFER_SIZE :: nat where
  "BUFFER_SIZE = 64 * 1024"

definition MAX_FRAMES :: nat where
  "MAX_FRAMES = 12"

definition CONNECT_CMD_SIZE :: nat where
  "CONNECT_CMD_SIZE = 5"

definition HEADER_SIZE :: nat where
  "HEADER_SIZE = 12"

definition MIN_JPEG_SIZE :: nat where
  "MIN_JPEG_SIZE = 1000"

definition MAX_JPEG_SIZE :: nat where
  "MAX_JPEG_SIZE = BUFFER_SIZE - 4096"

definition CAMERA_SUCCESS :: int where
  "CAMERA_SUCCESS = 0"

definition CAMERA_ERROR_INIT_FAILED :: int where
  "CAMERA_ERROR_INIT_FAILED = - 3"

definition CAMERA_ERROR_NO_FRAME :: int where
  "CAMERA_ERROR_NO_FRAME = - 4"

definition CAMERA_ERROR_BUFFER_SMALL :: int where
  "CAMERA_ERROR_BUFFER_SMALL = - 5"

definition CAMERA_ERROR_USB_FAILED :: int where
  "CAMERA_ERROR_USB_FAILED = - 7"

definition CAMERA_ERROR_TIMEOUT :: int where
  "CAMERA_ERROR_TIMEOUT = - 8"

text \<open>
  \<^verbatim>\<open>camera_frame_t\<close>. The pointer \<^verbatim>\<open>data\<close> is \<open>None\<close> when it is NULL and
  otherwise holds the whole allocated block, including the bytes beyond \<^verbatim>\<open>size\<close>
  that earlier frames left behind.
\<close>

record camera_frame =
  data :: "byte list option"
  size_f :: nat
  capacity :: nat
  ready :: bool

text \<open>
  \<^verbatim>\<open>camera_device_t\<close>, without the operating-system handles of the transport. The
  two events are modelled by their signalled state, the thread handle by whether it
  is non-NULL.
\<close>

record camera_device =
  streaming :: bool
  read_thread :: bool
  stop_event :: bool
  frames :: "camera_frame list"
  write_frame :: nat
  read_frame :: nat
  frame_ready_event :: bool
  frames_captured :: dword
  frames_dropped :: dword
  connect_cmd :: "byte list"

text \<open>
  The device structure that \<^verbatim>\<open>camera_open_path\<close> returns on success:
  \<^verbatim>\<open>calloc\<close> zeroes every field, both events are created non-signalled and the
  connection command is filled in.
\<close>

definition empty_frame :: camera_frame where
  "empty_frame = \<lparr>data = None, size_f = 0, capacity = 0, ready = False\<rparr>"

definition opened_device :: camera_device where
  "opened_device =
     \<lparr>streaming = False, read_thread = False, stop_event = False,
      frames = replicate MAX_FRAMES empty_frame,
      write_frame = 0, read_frame = 0, frame_ready_event = False,
      frames_captured = 0, frames_dropped = 0,
      connect_cmd = [0xbb, 0xaa, 0x05, 0x00, 0x00]\<rparr>"

section \<open>Error messages\<close>

text \<open>
  \<^verbatim>\<open>set_error\<close> formats into the 256-byte thread-local \<^verbatim>\<open>last_error\<close> with
  \<^verbatim>\<open>vsnprintf\<close>, which keeps at most 255 characters. Every function below that
  can fail returns, next to its status, the message it stored (\<open>None\<close> when it did
  not call \<^verbatim>\<open>set_error\<close>).
\<close>

fun digit_of :: "nat \<Rightarrow> char" where
  "digit_of n = (''0123456789'' ! (n mod 10))"

function dec :: "nat \<Rightarrow> string" where
  "dec n = (if n < 10 then [digit_of n] else dec (n div 10) @ [digit_of n])"
  by pat_completeness auto
termination
  by (relation "measure id") auto

declare dec.simps [simp del]

definition fmt_u :: "nat \<Rightarrow> string" where
  "fmt_u n = dec n"

definition fmt_d :: "int \<Rightarrow> string" where
  "fmt_d i = (if i < 0 then CHR ''-'' # dec (nat (- i)) else dec (nat i))"

definition set_error :: "string \<Rightarrow> string" where
  "set_error msg = take 255 msg"

section \<open>Allocation and copying\<close>

text \<open>
  \<^verbatim>\<open>process_data\<close> calls \<^verbatim>\<open>malloc\<close> in three places. Whether each call
  returns memory is decided by the environment, so it is a parameter of the model.
  A fresh block is modelled as zero-filled; the source never reads a byte of a
  frame buffer that it has not written before.
\<close>

record alloc_env =
  malloc_frame :: bool
  malloc_leftover :: bool
  malloc_next :: bool

definition alloc_buffer :: "byte list" where
  "alloc_buffer = replicate BUFFER_SIZE 0"

text \<open>
  \<^verbatim>\<open>memcpy(dst + off, src, n)\<close> on a block \<open>dst\<close>. A copy that would write past the
  end of the block is undefined behaviour in C and is \<open>None\<close> here.
\<close>

definition memcpy_at :: "byte list \<Rightarrow> nat \<Rightarrow> byte list \<Rightarrow> byte list option" where
  "memcpy_at dst off src =
     (if off + length src \<le> length dst
      then Some (take off dst @ src @ drop (off + length src) dst)
      else None)"

section \<open>The frame reassembler: \<^verbatim>\<open>process_data\<close>\<close>

text \<open>The test \<^verbatim>\<open>n >= 2 && p[0] == 0xFF && p[1] == 0xD8\<close> for the JPEG start marker.\<close>

definition has_soi :: "byte list \<Rightarrow> bool" where
  "has_soi p \<longleftrightarrow> 2 \<le> length p \<and> p ! 0 = 0xFF \<and> p ! 1 = 0xD8"

text \<open>The test for the vendor magic \<^verbatim>\<open>AA BB 07\<close> at the start of a packet.\<close>

definition valid_magic :: "byte list \<Rightarrow> bool" where
  "valid_magic pkt \<longleftrightarrow> 3 \<le> length pkt \<and> pkt ! 0 = 0xaa \<and> pkt ! 1 = 0xbb \<and> pkt ! 2 = 0x07"

text \<open>
  The scan \<^verbatim>\<open>for (i = 1; i < frame->size; i++)\<close> for the end marker. It returns
  \<^verbatim>\<open>complete_frame_size = i + 1\<close> for the first index that passes both tests of
  the source, which \<open>frame_end_at\<close> combines (the marker at \<open>i - 1, i\<close>, and the
  size and start-marker check), and \<open>None\<close> when the loop runs to the end.
\<close>

definition frame_end_at :: "byte list \<Rightarrow> nat \<Rightarrow> bool" where
  "frame_end_at buf i \<longleftrightarrow>
     buf ! (i - 1) = 0xFF \<and> buf ! i = 0xD9
     \<and> MIN_JPEG_SIZE \<le> i + 1 \<and> buf ! 0 = 0xFF \<and> buf ! 1 = 0xD8"

function find_frame_end :: "byte list \<Rightarrow> nat \<Rightarrow> nat \<Rightarrow> nat option" where
  "find_frame_end buf sz i =
     (if i < sz then
        (if frame_end_at buf i then Some (i + 1) else find_frame_end buf sz (i + 1))
      else None)"
  by pat_completeness auto
termination
  by (relation "measure (\<lambda>(buf, sz, i). sz - i)") auto

declare find_frame_end.simps [simp del]

definition store_frame :: "camera_device \<Rightarrow> nat \<Rightarrow> camera_frame \<Rightarrow> camera_device" where
  "store_frame dev i f = dev\<lparr>frames := (frames dev)[i := f]\<rparr>"

text \<open>
  The final safety check of \<^verbatim>\<open>process_data\<close>, applied to the slot that
  \<^verbatim>\<open>frame\<close> points to at the end of the function.
\<close>

definition safety_check :: "camera_frame \<Rightarrow> camera_frame" where
  "safety_check f =
     (if MAX_JPEG_SIZE < size_f f \<and> \<not> ready f then f\<lparr>size_f := 0, ready := False\<rparr> else f)"

text \<open>
  Lazy allocation of the write slot (source lines 826 to 835): the block of the slot
  and the slot itself, or \<open>None\<close> when \<^verbatim>\<open>malloc\<close> fails.
\<close>

definition alloc_frame :: "alloc_env \<Rightarrow> camera_frame \<Rightarrow> (byte list \<times> camera_frame) option" where
  "alloc_frame env f =
     (case data f of
        None \<Rightarrow>
          if malloc_frame env
          then Some (alloc_buffer,
                     f\<lparr>data := Some alloc_buffer, size_f := 0,
                       capacity := BUFFER_SIZE, ready := False\<rparr>)
          else None
      | Some buf \<Rightarrow> Some (buf, f))"

text \<open>
  Marking the write slot complete and moving the write index, with the drop of the
  oldest unread frame when the ring is full (source lines 895 to 911).
\<close>

definition mark_complete :: "camera_device \<Rightarrow> camera_frame \<Rightarrow> nat \<Rightarrow> camera_device" where
  "mark_complete dev frame complete_frame_size =
     (let dev1 = (store_frame dev (write_frame dev)
                    (frame\<lparr>size_f := complete_frame_size, ready := True\<rparr>))
                   \<lparr>frames_captured := frames_captured dev + 1, frame_ready_event := True\<rparr>;
          next_write = (write_frame dev1 + 1) mod MAX_FRAMES;
          dev2 = (if next_write = read_frame dev1 \<and> ready (frames dev1 ! read_frame dev1)
                  then dev1\<lparr>frames_dropped := frames_dropped dev1 + 1,
                            read_frame := (read_frame dev1 + 1) mod MAX_FRAMES\<rparr>
                  else dev1)
      in dev2\<lparr>write_frame := next_write\<rparr>)"

text \<open>Lazy allocation of the next write slot (source lines 915 to 923).\<close>

definition alloc_next :: "alloc_env \<Rightarrow> camera_frame \<Rightarrow> (byte list \<times> camera_frame) option" where
  "alloc_next env f =
     (case data f of
        None \<Rightarrow>
          if malloc_next env
          then Some (alloc_buffer, f\<lparr>data := Some alloc_buffer, capacity := BUFFER_SIZE\<rparr>)
          else None
      | Some buf \<Rightarrow> Some (buf, f))"

text \<open>
  Starting the next write slot with the saved leftover (source lines 925 to 940);
  \<open>None\<close> when the copy would leave the block.
\<close>

definition copy_leftover ::
  "byte list \<Rightarrow> camera_frame \<Rightarrow> byte list option \<Rightarrow> nat \<Rightarrow> camera_frame option" where
  "copy_leftover nbuf f leftover_data leftover =
     map_option (\<lambda>f'. f'\<lparr>ready := False\<rparr>)
       (case leftover_data of
          None \<Rightarrow> Some (f\<lparr>size_f := 0\<rparr>)
        | Some ld \<Rightarrow>
            if 2 \<le> leftover then
              (if ld ! 0 = 0xFF \<and> ld ! 1 = 0xD8
               then map_option (\<lambda>b. f\<lparr>data := Some b, size_f := leftover\<rparr>)
                      (memcpy_at nbuf 0 (take leftover ld))
               else Some (f\<lparr>size_f := 0\<rparr>))
            else Some (f\<lparr>size_f := 0\<rparr>))"

text \<open>
  The body of the acceptance branch (source lines 881 to 943) followed by the final
  safety check. \<open>frame\<close> is the write slot with the payload already appended, \<open>buf\<close>
  its block and \<open>complete_frame_size\<close> the value found by the scan. When the block
  of the next slot cannot be allocated the source returns at once, without the
  safety check.
\<close>

definition complete_frame ::
  "alloc_env \<Rightarrow> camera_device \<Rightarrow> camera_frame \<Rightarrow> byte list \<Rightarrow> nat \<Rightarrow> camera_device option" where
  "complete_frame env dev frame buf complete_frame_size =
     (let leftover = size_f frame - complete_frame_size;
          leftover_data =
            (if 0 < leftover \<and> leftover < BUFFER_SIZE \<and> malloc_leftover env
             then Some (take leftover (drop complete_frame_size buf)) else None);
          dev3 = mark_complete dev frame complete_frame_size
      in case alloc_next env (frames dev3 ! write_frame dev3) of
           None \<Rightarrow> Some dev3
         | Some (nbuf, nframe) \<Rightarrow>
             map_option (\<lambda>f. store_frame dev3 (write_frame dev3) (safety_check f))
               (copy_leftover nbuf nframe leftover_data leftover))"

text \<open>
  The part of \<^verbatim>\<open>process_data\<close> that handles a non-empty payload (source lines
  842 to 953). \<open>frame\<close> is the write slot as the allocation step left it and
  \<open>buf\<close> its block.
\<close>

definition process_payload ::
  "alloc_env \<Rightarrow> camera_device \<Rightarrow> byte list \<Rightarrow> camera_frame \<Rightarrow> byte list \<Rightarrow> camera_device option" where
  "process_payload env dev buf frame payload =
     (let w = write_frame dev;
          frame2 = (if has_soi payload \<and> 0 < size_f frame \<and> \<not> ready frame
                    then frame\<lparr>size_f := 0\<rparr> else frame)
      in
      if capacity frame2 < size_f frame2 + length payload then
        (let frame3 = frame2\<lparr>size_f := 0, ready := False\<rparr> in
         if has_soi payload
         then map_option
                (\<lambda>b. store_frame dev w (frame3\<lparr>data := Some b, size_f := length payload\<rparr>))
                (memcpy_at buf 0 payload)
         else Some (store_frame dev w frame3))
      else
        (case memcpy_at buf (size_f frame2) payload of
           None \<Rightarrow> None
         | Some buf' \<Rightarrow>
             let frame3 = frame2\<lparr>data := Some buf',
                                 size_f := size_f frame2 + length payload\<rparr>
             in (case find_frame_end buf' (size_f frame3) 1 of
                   None \<Rightarrow> Some (store_frame dev w (safety_check frame3))
                 | Some c \<Rightarrow> complete_frame env dev frame3 buf' c)))"

text \<open>
  \<^verbatim>\<open>process_data(dev, data, length)\<close> with the packet as the byte list
  \<open>pkt\<close> (\<^verbatim>\<open>length\<close> is its length). The result is \<open>None\<close> when the call would
  index the ring outside its bounds or copy past the end of a block.
\<close>

definition process_data :: "alloc_env \<Rightarrow> camera_device \<Rightarrow> byte list \<Rightarrow> camera_device option" where
  "process_data env dev pkt =
     (if \<not> write_frame dev < length (frames dev) then None
      else if \<not> valid_magic pkt then Some dev
      else
        case alloc_frame env (frames dev ! write_frame dev) of
          None \<Rightarrow> Some dev
        | Some (buf, frame) \<Rightarrow>
            if \<not> HEADER_SIZE < length pkt then Some (store_frame dev (write_frame dev) frame)
            else process_payload env dev buf frame (drop HEADER_SIZE pkt))"

text \<open>
  The successive calls of \<^verbatim>\<open>process_data\<close> that the capture loop makes for the
  packets the transport delivers, each with the allocator's answers during that call.
\<close>

fun feed :: "camera_device \<Rightarrow> (alloc_env \<times> byte list) list \<Rightarrow> camera_device option" where
  "feed dev [] = Some dev"
| "feed dev (ep # ps) =
     (case process_data (fst ep) dev (snd ep) of None \<Rightarrow> None | Some dev' \<Rightarrow> feed dev' ps)"

section \<open>The blocking reader: \<^verbatim>\<open>camera_read_frame\<close>\<close>

text \<open>
  A call either returns, or waits for ever, or leaves the defined behaviour of C
  (an index outside the ring, a copy from a NULL or too short block).
\<close>

datatype 'a outcome = Returns 'a | Blocks | Faults

text \<open>
  The time \<^verbatim>\<open>WaitForSingleObject\<close> is given (source line 969:
  \<^verbatim>\<open>DWORD timeout = timeout_ms ? timeout_ms : INFINITE\<close>). \<^verbatim>\<open>timeout_ms\<close> is an
  \<^verbatim>\<open>unsigned int\<close>, and \<^verbatim>\<open>INFINITE\<close> is \<^verbatim>\<open>0xFFFFFFFF\<close>: both
  \<^verbatim>\<open>timeout_ms = 0\<close> and \<^verbatim>\<open>timeout_ms = 0xFFFFFFFF\<close> wait without a limit.
\<close>

definition INFINITE :: dword where
  "INFINITE = 0xFFFFFFFF"

definition wait_timeout :: "dword \<Rightarrow> dword" where
  "wait_timeout timeout_ms = (if timeout_ms \<noteq> 0 then timeout_ms else INFINITE)"

text \<open>
  The loop of \<^verbatim>\<open>camera_read_frame\<close> with no producer running beside it. A returned
  tuple is the status, the bytes copied into the caller's buffer (their number is
  \<^verbatim>\<open>*bytes_read\<close>), the stored error message and the device. The ready event is
  an auto-reset event: a wait on the signalled event returns at once and resets it, a
  wait on the non-signalled event runs into the timeout when the time given is not
  \<^verbatim>\<open>INFINITE\<close>, and never returns when it is. \<open>wait_failure\<close> is \<open>Some e\<close>
  when \<^verbatim>\<open>WaitForSingleObject\<close> fails with \<^verbatim>\<open>GetLastError() = e\<close>.
\<close>

function camera_read_frame_loop ::
  "camera_device \<Rightarrow> nat \<Rightarrow> dword \<Rightarrow> dword option
     \<Rightarrow> (int \<times> byte list \<times> string option \<times> camera_device) outcome" where
  "camera_read_frame_loop dev buffer_size timeout_ms wait_failure =
     (if \<not> read_frame dev < length (frames dev) then Faults
      else if ready (frames dev ! read_frame dev) then
        (if buffer_size < size_f (frames dev ! read_frame dev)
         then Returns (CAMERA_ERROR_BUFFER_SMALL, [],
                Some (set_error (''Buffer too small: need ''
                        @ fmt_u (size_f (frames dev ! read_frame dev))
                        @ '' bytes, have '' @ fmt_u buffer_size)), dev)
         else (case data (frames dev ! read_frame dev) of
                 None \<Rightarrow> Faults
               | Some buf \<Rightarrow>
                   if length buf < size_f (frames dev ! read_frame dev) then Faults
                   else Returns (CAMERA_SUCCESS,
                          take (size_f (frames dev ! read_frame dev)) buf, None,
                          (store_frame dev (read_frame dev)
                             ((frames dev ! read_frame dev)\<lparr>ready := False, size_f := 0\<rparr>))
                            \<lparr>read_frame := (read_frame dev + 1) mod MAX_FRAMES\<rparr>)))
      else (case wait_failure of
              Some e \<Rightarrow>
                Returns (CAMERA_ERROR_USB_FAILED, [],
                  Some (set_error (''Wait failed: '' @ fmt_d (sint e))), dev)
            | None \<Rightarrow>
                if frame_ready_event dev
                then camera_read_frame_loop (dev\<lparr>frame_ready_event := False\<rparr>)
                       buffer_size timeout_ms wait_failure
                else if wait_timeout timeout_ms \<noteq> INFINITE
                then Returns (CAMERA_ERROR_TIMEOUT, [],
                       Some (set_error ''Timeout waiting for frame''), dev)
                else Blocks))"
  by pat_completeness auto
termination
  by (relation "measure (\<lambda>(dev, b, t, w). if frame_ready_event dev then 1 else 0)") auto

declare camera_read_frame_loop.simps [simp del]

text \<open>
  \<^verbatim>\<open>camera_read_frame\<close> on a non-NULL handle with non-NULL \<^verbatim>\<open>buffer\<close> and
  \<^verbatim>\<open>bytes_read\<close> (the types of the model leave no NULL argument).
\<close>

definition camera_read_frame ::
  "camera_device \<Rightarrow> nat \<Rightarrow> dword \<Rightarrow> dword option
     \<Rightarrow> (int \<times> byte list \<times> string option \<times> camera_device) outcome" where
  "camera_read_frame dev buffer_size timeout_ms wait_failure =
     (if \<not> streaming dev
      then Returns (CAMERA_ERROR_NO_FRAME, [], Some (set_error ''Camera is not streaming''), dev)
      else camera_read_frame_loop dev buffer_size timeout_ms wait_failure)"

section \<open>The streaming controller\<close>

text \<open>
  The answers of the transport and of the operating system to the calls of
  \<^verbatim>\<open>camera_start_streaming\<close> that can fail: \<^verbatim>\<open>WinUsb_SetCurrentAlternateSetting\<close>
  (\<open>Some e\<close>: it failed with \<^verbatim>\<open>GetLastError() = e\<close>), \<^verbatim>\<open>WinUsb_WritePipe\<close>
  (\<open>Inl e\<close>: it failed; \<open>Inr n\<close>: it sent \<open>n\<close> bytes) and \<^verbatim>\<open>CreateThread\<close>
  (\<open>Some e\<close>: it returned NULL).
\<close>

record usb_env =
  set_alternate_setting :: "dword option"
  write_pipe :: "dword + nat"
  create_thread :: "dword option"

definition send_command :: "usb_env \<Rightarrow> byte list \<Rightarrow> nat \<Rightarrow> int \<times> string option" where
  "send_command env cmd len =
     (case write_pipe env of
        Inl e \<Rightarrow>
          (CAMERA_ERROR_USB_FAILED,
           Some (set_error (''Failed to send command: '' @ fmt_d (sint e))))
      | Inr bytes_sent \<Rightarrow>
          if bytes_sent \<noteq> len
          then (CAMERA_ERROR_USB_FAILED,
                Some (set_error (''Short write: '' @ fmt_u bytes_sent @ '' / ''
                                   @ fmt_d (int len) @ '' bytes'')))
          else (CAMERA_SUCCESS, None))"

text \<open>
  \<^verbatim>\<open>camera_start_streaming\<close> on a non-NULL handle: the status, the stored error
  message and the device.
\<close>

definition camera_start_streaming ::
  "usb_env \<Rightarrow> camera_device \<Rightarrow> int \<times> string option \<times> camera_device" where
  "camera_start_streaming env dev =
     (if streaming dev then (CAMERA_SUCCESS, None, dev)
      else case set_alternate_setting env of
        Some e \<Rightarrow>
          (CAMERA_ERROR_INIT_FAILED,
           Some (set_error (''Failed to set alternate setting: '' @ fmt_d (sint e))), dev)
      | None \<Rightarrow>
          (case send_command env (connect_cmd dev) CONNECT_CMD_SIZE of
             (ret, msg) \<Rightarrow>
               if ret \<noteq> CAMERA_SUCCESS then (ret, msg, dev)
               else
                 (case create_thread env of
                    Some e \<Rightarrow>
                      (CAMERA_ERROR_INIT_FAILED,
                       Some (set_error (''Failed to create read thread: '' @ fmt_d (sint e))),
                       dev\<lparr>stop_event := False, streaming := False, read_thread := False\<rparr>)
                  | None \<Rightarrow>
                      (CAMERA_SUCCESS, None,
                       dev\<lparr>stop_event := False, streaming := True, read_thread := True\<rparr>))))"

text \<open>\<^verbatim>\<open>camera_stop_streaming\<close> on a non-NULL handle.\<close>

definition camera_stop_streaming :: "camera_device \<Rightarrow> camera_device" where
  "camera_stop_streaming dev =
     (if \<not> streaming dev then dev
      else dev\<lparr>streaming := False, stop_event := True, read_thread := False,
               frames := map (\<lambda>f. f\<lparr>ready := False, size_f := 0\<rparr>) (frames dev),
               read_frame := 0, write_frame := 0, frame_ready_event := False\<rparr>)"

text \<open>
  \<^verbatim>\<open>camera_get_stats\<close> on a non-NULL handle with both output pointers given: the
  status and the two values written.
\<close>

definition camera_get_stats :: "camera_device \<Rightarrow> int \<times> dword \<times> dword" where
  "camera_get_stats dev = (CAMERA_SUCCESS, frames_captured dev, frames_dropped dev)"

section \<open>Well-formed device states\<close>

text \<open>
  What the C types and the allocation discipline guarantee of every device: the ring
  has \<^verbatim>\<open>MAX_FRAMES\<close> slots, both indices are inside it, a slot without a block is
  as \<^verbatim>\<open>calloc\<close> left it, and a slot with a block has the one block size of the
  source as its capacity and a size within it.
\<close>

definition frame_ok :: "camera_frame \<Rightarrow> bool" where
  "frame_ok f =
     (case data f of
        None \<Rightarrow> size_f f = 0 \<and> \<not> ready f
      | Some buf \<Rightarrow> length buf = BUFFER_SIZE \<and> capacity f = BUFFER_SIZE \<and> size_f f \<le> BUFFER_SIZE)"

definition dev_ok :: "camera_device \<Rightarrow> bool" where
  "dev_ok dev \<longleftrightarrow>
     length (frames dev) = MAX_FRAMES \<and> write_frame dev < MAX_FRAMES
     \<and> read_frame dev < MAX_FRAMES \<and> list_all frame_ok (frames dev)"

section \<open>Derived notions used in the statements\<close>

text \<open>The bytes a slot holds: \<^verbatim>\<open>data[0 .. size)\<close>.\<close>

definition content :: "camera_frame \<Rightarrow> byte list" where
  "content f = (case data f of None \<Rightarrow> [] | Some buf \<Rightarrow> take (size_f f) buf)"

text \<open>
  What becomes of the bytes \<open>lo\<close> behind an accepted frame, \<open>n0\<close> being the next
  write slot before the call: they are kept when both allocations succeed, they
  start with the start marker and the final safety check lets them pass.
\<close>

definition leftover_kept :: "alloc_env \<Rightarrow> camera_frame \<Rightarrow> byte list \<Rightarrow> byte list" where
  "leftover_kept env n0 lo =
     (if (data n0 \<noteq> None \<or> malloc_next env) \<and> malloc_leftover env \<and> has_soi lo
         \<and> length lo \<le> MAX_JPEG_SIZE
      then lo else [])"

text \<open>
  The bytes of the write slot that the start-marker test of a payload keeps (source
  lines 844 to 850).
\<close>

definition carried :: "camera_frame \<Rightarrow> byte list \<Rightarrow> byte list" where
  "carried f payload = (if has_soi payload \<and> \<not> ready f then [] else content f)"

text \<open>
  The observable effect of accepting the frame \<open>fr\<close> with the bytes \<open>lo\<close> behind it.
\<close>

definition completion_effect ::
  "alloc_env \<Rightarrow> camera_device \<Rightarrow> byte list \<Rightarrow> byte list \<Rightarrow> camera_device \<Rightarrow> bool" where
  "completion_effect env dev fr lo dev' \<longleftrightarrow>
     dev_ok dev'
     \<and> write_frame dev' = (write_frame dev + 1) mod MAX_FRAMES
     \<and> frames_captured dev' = frames_captured dev + 1
     \<and> frame_ready_event dev'
     \<and> streaming dev' = streaming dev
     \<and> frames_dropped dev'
          = (if (write_frame dev + 1) mod MAX_FRAMES = read_frame dev
                \<and> ready (frames dev ! read_frame dev)
             then frames_dropped dev + 1 else frames_dropped dev)
     \<and> read_frame dev'
          = (if (write_frame dev + 1) mod MAX_FRAMES = read_frame dev
                \<and> ready (frames dev ! read_frame dev)
             then (read_frame dev + 1) mod MAX_FRAMES else read_frame dev)
     \<and> ready (frames dev' ! write_frame dev)
     \<and> content (frames dev' ! write_frame dev) = fr
     \<and> \<not> ready (frames dev' ! ((write_frame dev + 1) mod MAX_FRAMES))
     \<and> content (frames dev' ! ((write_frame dev + 1) mod MAX_FRAMES))
          = leftover_kept env (frames dev ! ((write_frame dev + 1) mod MAX_FRAMES)) lo
     \<and> (\<forall>i. i \<noteq> write_frame dev \<and> i \<noteq> (write_frame dev + 1) mod MAX_FRAMES
            \<longrightarrow> frames dev' ! i = frames dev ! i)"

text \<open>
  The three ways in which \<^verbatim>\<open>camera_start_streaming\<close> can fail before the capture
  thread runs, as the environment decides them, and what a caller observes of a call:
  the status and the stored message.
\<close>

datatype start_failure = AltSettingFailure | HandshakeWriteFailure | ThreadCreationFailure

definition start_failure_of :: "usb_env \<Rightarrow> start_failure option" where
  "start_failure_of env =
     (if set_alternate_setting env \<noteq> None then Some AltSettingFailure
      else if write_pipe env \<noteq> Inr CONNECT_CMD_SIZE then Some HandshakeWriteFailure
      else if create_thread env \<noteq> None then Some ThreadCreationFailure
      else None)"

definition surfaced :: "int \<times> string option \<times> camera_device \<Rightarrow> int \<times> string option" where
  "surfaced r = (fst r, fst (snd r))"

text \<open>Concrete inputs for the worked instances below.\<close>

definition all_ok :: alloc_env where
  "all_ok = \<lparr>malloc_frame = True, malloc_leftover = True, malloc_next = True\<rparr>"

definition example_header :: "byte list" where
  "example_header = [0xaa, 0xbb, 0x07] @ replicate 9 0"

definition example_jpeg :: "byte list" where
  "example_jpeg = [0xFF, 0xD8] @ replicate 996 0 @ [0xFF, 0xD9]"

definition ready_device :: camera_device where
  "ready_device =
     opened_device
       \<lparr>streaming := True,
        frames := (replicate MAX_FRAMES empty_frame)
          [0 := \<lparr>data = Some (example_jpeg @ replicate (BUFFER_SIZE - 1000) 0),
                  size_f = 1000, capacity = BUFFER_SIZE, ready = True\<rparr>]\<rparr>"

definition usb_alt_fails :: usb_env where
  "usb_alt_fails = \<lparr>set_alternate_setting = Some 31, write_pipe = Inr 5, create_thread = None\<rparr>"

definition usb_write_fails :: usb_env where
  "usb_write_fails = \<lparr>set_alternate_setting = None, write_pipe = Inl 31, create_thread = None\<rparr>"

text \<open>
  A byte string that starts with the start marker \<^verbatim>\<open>FF D8\<close> and ends with the
  end marker \<^verbatim>\<open>FF D9\<close>, and the condition on a slot that is marked ready.
\<close>

definition jpeg_bytes :: "byte list \<Rightarrow> bool" where
  "jpeg_bytes bs \<longleftrightarrow>
     2 \<le> length bs \<and> bs ! 0 = 0xFF \<and> bs ! 1 = 0xD8
     \<and> bs ! (length bs - 2) = 0xFF \<and> bs ! (length bs - 1) = 0xD9"

definition ready_slot_ok :: "camera_frame \<Rightarrow> bool" where
  "ready_slot_ok f \<longleftrightarrow>
     (ready f \<longrightarrow>
        jpeg_bytes (content f) \<and> length (content f) = size_f f
        \<and> MIN_JPEG_SIZE \<le> size_f f \<and> size_f f \<le> capacity f)"

definition ready_slots_ok :: "camera_device \<Rightarrow> bool" where
  "ready_slots_ok dev \<longleftrightarrow> list_all ready_slot_ok (frames dev)"

text \<open>
  The bytes the write slot holds once the payload of \<open>pkt\<close> is appended to what the
  start-marker test keeps.
\<close>

definition accumulated :: "camera_device \<Rightarrow> byte list \<Rightarrow> byte list" where
  "accumulated dev pkt =
     carried (frames dev ! write_frame dev) (drop HEADER_SIZE pkt) @ drop HEADER_SIZE pkt"

definition filling_device :: camera_device where
  "filling_device =
     opened_device
       \<lparr>streaming := True,
        frames := (replicate MAX_FRAMES empty_frame)
          [0 := \<lparr>data = Some (replicate BUFFER_SIZE 0),
                  size_f = 61000, capacity = BUFFER_SIZE, ready = False\<rparr>]\<rparr>"

definition zero_packet :: "byte list" where
  "zero_packet = example_header @ replicate 5000 0"

text \<open>
  The end marker \<^verbatim>\<open>FF D9\<close> ending at offset \<open>i\<close>, and the offset of its first
  occurrence that ends at offset \<open>k\<close> or later.
\<close>

definition eoi_at :: "byte list \<Rightarrow> nat \<Rightarrow> bool" where
  "eoi_at s i \<longleftrightarrow> s ! (i - 1) = 0xFF \<and> s ! i = 0xD9"

definition first_eoi_from :: "byte list \<Rightarrow> nat \<Rightarrow> nat option" where
  "first_eoi_from s k = find (eoi_at s) [k ..< length s]"

text \<open>
  What the scan of \<^verbatim>\<open>process_data\<close> computes, stated without the loop: when the
  bytes start with the start marker, the end of the first end marker that ends at offset
  \<^verbatim>\<open>MIN_JPEG_SIZE - 1\<close> or later.
\<close>

definition first_accepted_end :: "byte list \<Rightarrow> nat option" where
  "first_accepted_end s =
     (if s ! 0 = 0xFF \<and> s ! 1 = 0xD8
      then map_option Suc (first_eoi_from s (MIN_JPEG_SIZE - 1)) else None)"

definition usb_ok :: usb_env where
  "usb_ok = \<lparr>set_alternate_setting = None, write_pipe = Inr 5, create_thread = None\<rparr>"

definition started_device :: camera_device where
  "started_device = snd (snd (camera_start_streaming usb_ok opened_device))"

definition example_packet :: "byte list" where
  "example_packet = example_header @ example_jpeg"

text \<open>
  The acceptance rule in the words of the specification: the first occurrence of the
  end marker decides; its candidate frame is accepted when it is long enough and the
  bytes start with the start marker.
\<close>

definition spec_first_match :: "byte list \<Rightarrow> nat option" where
  "spec_first_match s =
     (case first_eoi_from s 1 of
        None \<Rightarrow> None
      | Some i \<Rightarrow>
          if MIN_JPEG_SIZE \<le> i + 1 \<and> s ! 0 = 0xFF \<and> s ! 1 = 0xD8 then Some (i + 1) else None)"

definition early_eoi_jpeg :: "byte list" where
  "early_eoi_jpeg = [0xFF, 0xD8, 0xFF, 0xD9] @ replicate 994 0 @ [0xFF, 0xD9]"

definition early_eoi_packet :: "byte list" where
  "early_eoi_packet = example_header @ early_eoi_jpeg"

definition long_tail :: "byte list" where
  "long_tail = [0xFF, 0xD8] @ replicate 61500 0"

definition long_tail_packet :: "byte list" where
  "long_tail_packet = example_header @ example_jpeg @ long_tail"

definition short_tail_packet :: "byte list" where
  "short_tail_packet = example_header @ example_jpeg @ [0xFF, 0xD8, 0x01]"

text \<open>
  The frames that a run of \<^verbatim>\<open>process_data\<close> calls completes, in order: a call
  completes a frame when it increments \<^verbatim>\<open>frames_captured\<close>, and the frame is then
  the content of the slot that was the write slot before the call.
\<close>

definition completed_by :: "camera_device \<Rightarrow> camera_device \<Rightarrow> byte list list" where
  "completed_by dev dev' =
     (if frames_captured dev' \<noteq> frames_captured dev
      then [content (frames dev' ! write_frame dev)] else [])"

fun completed_frames :: "camera_device \<Rightarrow> (alloc_env \<times> byte list) list \<Rightarrow> byte list list" where
  "completed_frames dev [] = []"
| "completed_frames dev (ep # ps) =
     (case process_data (fst ep) dev (snd ep) of
        None \<Rightarrow> []
      | Some dev' \<Rightarrow> completed_by dev dev' @ completed_frames dev' ps)"

text \<open>The last \<open>n\<close> elements of a list.\<close>

definition lastn :: "nat \<Rightarrow> 'a list \<Rightarrow> 'a list" where
  "lastn n xs = drop (length xs - n) xs"

text \<open>
  The ring holds the queue \<open>q\<close> of completed, unread frames: they sit in the slots from
  the read index up to the write index, exactly these slots are ready, and the write
  slot is the next one.
\<close>

definition ring_holds :: "camera_device \<Rightarrow> byte list list \<Rightarrow> bool" where
  "ring_holds dev q \<longleftrightarrow>
     dev_ok dev \<and> length q < MAX_FRAMES
     \<and> write_frame dev = (read_frame dev + length q) mod MAX_FRAMES
     \<and> (\<forall>j < MAX_FRAMES. ready (frames dev ! ((read_frame dev + j) mod MAX_FRAMES)) \<longleftrightarrow> j < length q)
     \<and> (\<forall>j < length q. content (frames dev ! ((read_frame dev + j) mod MAX_FRAMES)) = q ! j)"

text \<open>What a caller sees of a returned \<^verbatim>\<open>camera_read_frame\<close>: the status and the bytes.\<close>

definition read_result ::
  "(int \<times> byte list \<times> string option \<times> camera_device) outcome \<Rightarrow> (int \<times> byte list) option" where
  "read_result r = (case r of Returns x \<Rightarrow> Some (fst x, fst (snd x)) | Blocks \<Rightarrow> None | Faults \<Rightarrow> None)"

text \<open>Distinguishable 1000-byte frames, one per packet.\<close>

definition numbered_jpeg :: "nat \<Rightarrow> byte list" where
  "numbered_jpeg k = [0xFF, 0xD8, of_nat k] @ replicate 995 0 @ [0xFF, 0xD9]"

definition numbered_packets :: "nat list \<Rightarrow> (alloc_env \<times> byte list) list" where
  "numbered_packets ks = map (\<lambda>k. (all_ok, example_header @ numbered_jpeg k)) ks"




text \<open>An empty ring whose write slot holds the bytes \<open>A\<close>.\<close>

definition empty_ring_with :: "camera_device \<Rightarrow> byte list \<Rightarrow> bool" where
  "empty_ring_with dev A \<longleftrightarrow>
     dev_ok dev \<and> list_all (\<lambda>f. \<not> ready f) (frames dev) \<and> read_frame dev = write_frame dev
     \<and> content (frames dev ! write_frame dev) = A"






section \<open>Auxiliary lemmas\<close>

lemma nth_update_if:
  "(xs[i := x]) ! j = (if i = j \<and> i < length xs then x else xs ! j)"
  by (cases "i < length xs") (auto simp: nth_list_update list_update_beyond)

lemma dev_ok_frame: "dev_ok dev \<Longrightarrow> i < MAX_FRAMES \<Longrightarrow> frame_ok (frames dev ! i)"
  by (simp add: dev_ok_def list_all_length)

lemma dev_ok_store:
  "dev_ok dev \<Longrightarrow> frame_ok f \<Longrightarrow> dev_ok (store_frame dev i f)"
  by (auto simp: dev_ok_def store_frame_def list_all_length nth_update_if)

lemma succ_mod_neq: "w < MAX_FRAMES \<Longrightarrow> (w + 1) mod MAX_FRAMES \<noteq> w"
  unfolding MAX_FRAMES_def by presburger

lemma succ_mod_less: "(w + 1) mod MAX_FRAMES < MAX_FRAMES"
  by (simp add: MAX_FRAMES_def)

lemma mark_complete_effect:
  assumes ok: "dev_ok dev" and F: "frame_ok (frame\<lparr>size_f := c, ready := True\<rparr>)"
  shows "dev_ok (mark_complete dev frame c)"
    and "write_frame (mark_complete dev frame c) = (write_frame dev + 1) mod MAX_FRAMES"
    and "frames (mark_complete dev frame c)
           = (frames dev)[write_frame dev := frame\<lparr>size_f := c, ready := True\<rparr>]"
    and "frames_captured (mark_complete dev frame c) = frames_captured dev + 1"
    and "frame_ready_event (mark_complete dev frame c)"
    and "streaming (mark_complete dev frame c) = streaming dev"
    and "frames_dropped (mark_complete dev frame c)
           = (if (write_frame dev + 1) mod MAX_FRAMES = read_frame dev
                 \<and> ready (frames dev ! read_frame dev)
              then frames_dropped dev + 1 else frames_dropped dev)"
    and "read_frame (mark_complete dev frame c)
           = (if (write_frame dev + 1) mod MAX_FRAMES = read_frame dev
                 \<and> ready (frames dev ! read_frame dev)
              then (read_frame dev + 1) mod MAX_FRAMES else read_frame dev)"
proof -
  have w: "write_frame dev < MAX_FRAMES" "length (frames dev) = MAX_FRAMES"
    using ok by (simp_all add: dev_ok_def)
  have ne: "(write_frame dev + 1) mod MAX_FRAMES \<noteq> write_frame dev"
    using w succ_mod_neq by simp
  have r: "(write_frame dev + 1) mod MAX_FRAMES = read_frame dev \<Longrightarrow>
        (frames dev)[write_frame dev := frame\<lparr>size_f := c, ready := True\<rparr>] ! read_frame dev
          = frames dev ! read_frame dev"
    using ne by (simp add: nth_update_if)
  show "write_frame (mark_complete dev frame c) = (write_frame dev + 1) mod MAX_FRAMES"
    by (simp add: mark_complete_def Let_def store_frame_def)
  show "frames (mark_complete dev frame c)
           = (frames dev)[write_frame dev := frame\<lparr>size_f := c, ready := True\<rparr>]"
    by (simp add: mark_complete_def Let_def store_frame_def)
  show "frames_captured (mark_complete dev frame c) = frames_captured dev + 1"
    by (simp add: mark_complete_def Let_def store_frame_def)
  show "frame_ready_event (mark_complete dev frame c)"
    by (simp add: mark_complete_def Let_def store_frame_def)
  show "streaming (mark_complete dev frame c) = streaming dev"
    by (simp add: mark_complete_def Let_def store_frame_def)
  show "frames_dropped (mark_complete dev frame c)
           = (if (write_frame dev + 1) mod MAX_FRAMES = read_frame dev
                 \<and> ready (frames dev ! read_frame dev)
              then frames_dropped dev + 1 else frames_dropped dev)"
    using r by (auto simp: mark_complete_def Let_def store_frame_def)
  show "read_frame (mark_complete dev frame c)
           = (if (write_frame dev + 1) mod MAX_FRAMES = read_frame dev
                 \<and> ready (frames dev ! read_frame dev)
              then (read_frame dev + 1) mod MAX_FRAMES else read_frame dev)"
    using r by (auto simp: mark_complete_def Let_def store_frame_def)
  show "dev_ok (mark_complete dev frame c)"
    using ok F r
    by (auto simp: mark_complete_def Let_def store_frame_def dev_ok_def list_all_length
        nth_update_if succ_mod_less)
qed

lemma alloc_next_effect:
  assumes "frame_ok n0"
  shows "case alloc_next env n0 of
           None \<Rightarrow> data n0 = None \<and> \<not> malloc_next env \<and> size_f n0 = 0 \<and> \<not> ready n0
         | Some (nbuf, n1) \<Rightarrow>
             (data n0 \<noteq> None \<or> malloc_next env) \<and> length nbuf = BUFFER_SIZE
             \<and> capacity n1 = BUFFER_SIZE \<and> data n1 = Some nbuf \<and> size_f n1 = size_f n0"
  using assms by (auto simp: alloc_next_def frame_ok_def alloc_buffer_def split: option.splits)

lemma copy_leftover_effect:
  assumes "length nbuf = BUFFER_SIZE" "capacity n1 = BUFFER_SIZE" "data n1 = Some nbuf"
    and "leftover < BUFFER_SIZE"
    and "ld = (if 0 < leftover \<and> ok then Some lo else None)"
    and "length lo = leftover"
  shows "\<exists>n2. copy_leftover nbuf n1 ld leftover = Some n2
           \<and> frame_ok (safety_check n2) \<and> \<not> ready (safety_check n2)
           \<and> content (safety_check n2)
               = (if ok \<and> has_soi lo \<and> length lo \<le> MAX_JPEG_SIZE then lo else [])"
  using assms
  by (auto simp: copy_leftover_def memcpy_at_def frame_ok_def safety_check_def content_def
      has_soi_def)

lemma complete_frame_effect:
  assumes ok: "dev_ok dev"
    and fr: "data frame = Some buf" "length buf = BUFFER_SIZE" "capacity frame = BUFFER_SIZE"
      "size_f frame \<le> BUFFER_SIZE"
    and c: "0 < c" "c \<le> size_f frame"
  shows "\<exists>dev'. complete_frame env dev frame buf c = Some dev' \<and> dev_ok dev'
     \<and> write_frame dev' = (write_frame dev + 1) mod MAX_FRAMES
     \<and> frames_captured dev' = frames_captured dev + 1
     \<and> frame_ready_event dev'
     \<and> streaming dev' = streaming dev
     \<and> frames_dropped dev'
          = (if (write_frame dev + 1) mod MAX_FRAMES = read_frame dev
                \<and> ready (frames dev ! read_frame dev)
             then frames_dropped dev + 1 else frames_dropped dev)
     \<and> read_frame dev'
          = (if (write_frame dev + 1) mod MAX_FRAMES = read_frame dev
                \<and> ready (frames dev ! read_frame dev)
             then (read_frame dev + 1) mod MAX_FRAMES else read_frame dev)
     \<and> ready (frames dev' ! write_frame dev)
     \<and> content (frames dev' ! write_frame dev) = take c buf
     \<and> \<not> ready (frames dev' ! ((write_frame dev + 1) mod MAX_FRAMES))
     \<and> content (frames dev' ! ((write_frame dev + 1) mod MAX_FRAMES))
          = leftover_kept env (frames dev ! ((write_frame dev + 1) mod MAX_FRAMES))
              (drop c (take (size_f frame) buf))
     \<and> (\<forall>i. i \<noteq> write_frame dev \<and> i \<noteq> (write_frame dev + 1) mod MAX_FRAMES
            \<longrightarrow> frames dev' ! i = frames dev ! i)"
proof -
  define w where "w = write_frame dev"
  define nw where "nw = (w + 1) mod MAX_FRAMES"
  define lo where "lo = drop c (take (size_f frame) buf)"
  define n0 where "n0 = frames dev ! nw"
  define leftover where "leftover = size_f frame - c"
  define ld where "ld = (if 0 < leftover \<and> leftover < BUFFER_SIZE \<and> malloc_leftover env
             then Some (take leftover (drop c buf)) else None)"
  define F where "F = frame\<lparr>size_f := c, ready := True\<rparr>"
  define dev3 where "dev3 = mark_complete dev frame c"
  have w: "w < MAX_FRAMES" "length (frames dev) = MAX_FRAMES" "read_frame dev < MAX_FRAMES"
    using ok by (simp_all add: dev_ok_def w_def)
  have nw: "nw < MAX_FRAMES" "nw \<noteq> w"
    using w succ_mod_neq [of w] by (simp_all add: nw_def succ_mod_less)
  have n0: "frame_ok n0" using ok nw by (simp add: n0_def dev_ok_frame)
  have lo: "leftover < BUFFER_SIZE" "lo = take leftover (drop c buf)" "length lo = leftover"
    using c fr by (simp_all add: lo_def drop_take leftover_def)
  have ld: "ld = (if 0 < leftover \<and> malloc_leftover env then Some lo else None)"
    using lo by (simp add: ld_def)
  have F: "frame_ok F" "ready F" "content F = take c buf"
    using fr c by (simp_all add: frame_ok_def F_def content_def min_def)
  note mc = mark_complete_effect [OF ok F(1) [unfolded F_def], folded dev3_def F_def w_def, folded nw_def]
  have fr3: "frames dev3 ! w = F" "frames dev3 ! nw = n0"
    "\<And>i. i \<noteq> w \<Longrightarrow> frames dev3 ! i = frames dev ! i"
    using w nw by (simp_all add: mc(3) n0_def)
  have cf: "complete_frame env dev frame buf c =
      (case alloc_next env n0 of
           None \<Rightarrow> Some dev3
         | Some (nbuf, nframe) \<Rightarrow>
             map_option (\<lambda>f. store_frame dev3 nw (safety_check f))
               (copy_leftover nbuf nframe ld leftover))"
    unfolding complete_frame_def Let_def ld_def leftover_def dev3_def
    by (simp only: mc(2) [unfolded dev3_def] fr3(2) [unfolded dev3_def])
  have len3: "length (frames dev3) = MAX_FRAMES" using mc(1) by (simp add: dev_ok_def)
  have main: "\<exists>dev'. complete_frame env dev frame buf c = Some dev' \<and> dev_ok dev'
     \<and> write_frame dev' = nw
     \<and> frames_captured dev' = frames_captured dev + 1
     \<and> frame_ready_event dev'
     \<and> streaming dev' = streaming dev
     \<and> frames_dropped dev'
          = (if nw = read_frame dev \<and> ready (frames dev ! read_frame dev)
             then frames_dropped dev + 1 else frames_dropped dev)
     \<and> read_frame dev'
          = (if nw = read_frame dev \<and> ready (frames dev ! read_frame dev)
             then (read_frame dev + 1) mod MAX_FRAMES else read_frame dev)
     \<and> ready (frames dev' ! w)
     \<and> content (frames dev' ! w) = take c buf
     \<and> \<not> ready (frames dev' ! nw)
     \<and> content (frames dev' ! nw) = leftover_kept env n0 lo
     \<and> (\<forall>i. i \<noteq> w \<and> i \<noteq> nw \<longrightarrow> frames dev' ! i = frames dev ! i)"
  proof (cases "alloc_next env n0")
    case None
    then have z: "data n0 = None" "\<not> malloc_next env" "size_f n0 = 0" "\<not> ready n0"
      using alloc_next_effect [OF n0, of env] by simp_all
    have 1: "complete_frame env dev frame buf c = Some dev3" using cf None by simp
    have 2: "content n0 = []" using z by (simp add: content_def)
    have 3: "leftover_kept env n0 lo = []" using z by (simp add: leftover_kept_def)
    show ?thesis
      by (rule exI [of _ dev3]) (simp add: 1 2 3 mc(1,2,4-8) fr3 F z(4))
  next
    case (Some p)
    obtain nbuf n1 where p: "p = (nbuf, n1)" by (cases p)
    have a: "data n0 \<noteq> None \<or> malloc_next env" "length nbuf = BUFFER_SIZE"
      "capacity n1 = BUFFER_SIZE" "data n1 = Some nbuf"
      using alloc_next_effect [OF n0, of env] Some p by simp_all
    obtain n2 where n2: "copy_leftover nbuf n1 ld leftover = Some n2"
      "frame_ok (safety_check n2)" "\<not> ready (safety_check n2)"
      "content (safety_check n2)
               = (if malloc_leftover env \<and> has_soi lo \<and> length lo \<le> MAX_JPEG_SIZE then lo else [])"
      using copy_leftover_effect [OF a(2,3,4) lo(1) ld lo(3)] by blast
    define dev' where "dev' = store_frame dev3 nw (safety_check n2)"
    have 1: "complete_frame env dev frame buf c = Some dev'"
      using cf Some p n2(1) by (simp add: dev'_def)
    have 2: "dev_ok dev'" using mc(1) n2(2) by (simp add: dev'_def dev_ok_store)
    have 3: "frames dev' ! w = F" "frames dev' ! nw = safety_check n2"
      "\<And>i. i \<noteq> w \<and> i \<noteq> nw \<longrightarrow> frames dev' ! i = frames dev ! i"
      using fr3 nw len3 by (simp_all add: dev'_def store_frame_def nth_update_if)
    have 4: "leftover_kept env n0 lo
        = (if malloc_leftover env \<and> has_soi lo \<and> length lo \<le> MAX_JPEG_SIZE then lo else [])"
      using a(1) by (auto simp: leftover_kept_def)
    have 5: "write_frame dev' = write_frame dev3" "frames_captured dev' = frames_captured dev3"
      "frame_ready_event dev' = frame_ready_event dev3" "streaming dev' = streaming dev3"
      "frames_dropped dev' = frames_dropped dev3" "read_frame dev' = read_frame dev3"
      by (simp_all add: dev'_def store_frame_def)
    show ?thesis
      by (rule exI [of _ dev']) (simp add: 1 2 3 4 5 mc(2,4-8) F(2,3) n2(3,4))
  qed
  show ?thesis
    using main unfolding n0_def lo_def nw_def w_def .
qed

lemma find_frame_end_take:
  "1 \<le> i \<Longrightarrow> find_frame_end (take sz buf) sz i = find_frame_end buf sz i"
proof (induction buf sz i rule: find_frame_end.induct)
  case (1 buf sz i)
  have fe: "i < sz \<Longrightarrow> frame_end_at (take sz buf) i = frame_end_at buf i"
    using "1.prems" by (auto simp: frame_end_at_def)
  show ?case
  proof (cases "i < sz")
    case True
    then show ?thesis using 1 fe
      by (simp add: find_frame_end.simps [of buf sz i] find_frame_end.simps [of "take sz buf" sz i])
  next
    case False
    then show ?thesis
      by (simp add: find_frame_end.simps [of buf sz i] find_frame_end.simps [of "take sz buf" sz i])
  qed
qed

lemma process_payload_stage:
  assumes fr: "data frame = Some buf" "length buf = BUFFER_SIZE" "capacity frame = BUFFER_SIZE"
      "size_f frame \<le> BUFFER_SIZE"
    and s_def: "s = carried frame payload @ payload"
  shows "process_payload env dev buf frame payload =
     (if BUFFER_SIZE < length s then
        (if has_soi payload
         then map_option
                (\<lambda>b. store_frame dev (write_frame dev)
                   (frame\<lparr>data := Some b, size_f := length payload, ready := False\<rparr>))
                (memcpy_at buf 0 payload)
         else Some (store_frame dev (write_frame dev) (frame\<lparr>size_f := 0, ready := False\<rparr>)))
      else
        (case find_frame_end s (length s) 1 of
           None \<Rightarrow> Some (store_frame dev (write_frame dev)
                     (safety_check (frame\<lparr>data := Some (s @ drop (length s) buf), size_f := length s\<rparr>)))
         | Some c \<Rightarrow> complete_frame env dev
                     (frame\<lparr>data := Some (s @ drop (length s) buf), size_f := length s\<rparr>)
                     (s @ drop (length s) buf) c))"
proof -
  define frame2 where "frame2 = (if has_soi payload \<and> 0 < size_f frame \<and> \<not> ready frame
                    then frame\<lparr>size_f := 0\<rparr> else frame)"
  have f2: "size_f frame2 = length (carried frame payload)" "capacity frame2 = BUFFER_SIZE"
    "take (size_f frame2) buf = carried frame payload"
    "frame2\<lparr>size_f := 0, ready := False\<rparr> = frame\<lparr>size_f := 0, ready := False\<rparr>"
    using fr by (auto simp: frame2_def carried_def content_def)
  have ls: "length s = size_f frame2 + length payload" by (simp add: s_def f2)
  have f3: "\<And>b n. frame2\<lparr>data := Some b, size_f := n\<rparr> = frame\<lparr>data := Some b, size_f := n\<rparr>"
    by (simp add: frame2_def)
  have pp: "process_payload env dev buf frame payload =
      (if capacity frame2 < size_f frame2 + length payload then
        (let frame3 = frame2\<lparr>size_f := 0, ready := False\<rparr> in
         if has_soi payload
         then map_option
                (\<lambda>b. store_frame dev (write_frame dev) (frame3\<lparr>data := Some b, size_f := length payload\<rparr>))
                (memcpy_at buf 0 payload)
         else Some (store_frame dev (write_frame dev) frame3))
      else
        (case memcpy_at buf (size_f frame2) payload of
           None \<Rightarrow> None
         | Some buf' \<Rightarrow>
             let frame3 = frame2\<lparr>data := Some buf',
                                 size_f := size_f frame2 + length payload\<rparr>
             in (case find_frame_end buf' (size_f frame3) 1 of
                   None \<Rightarrow> Some (store_frame dev (write_frame dev) (safety_check frame3))
                 | Some c \<Rightarrow> complete_frame env dev frame3 buf' c)))"
    unfolding process_payload_def frame2_def Let_def by (rule refl)
  have f5: "\<And>b n. frame\<lparr>ready := False, data := Some b, size_f := n\<rparr>
      = frame\<lparr>data := Some b, size_f := n, ready := False\<rparr>"
    by simp
  show ?thesis
  proof (cases "BUFFER_SIZE < length s")
    case True
    then show ?thesis
      by (simp add: pp f2(2,4) ls Let_def f5)
  next
    case False
    then have le: "size_f frame2 + length payload \<le> length buf" using ls fr by simp
    have m: "memcpy_at buf (size_f frame2) payload = Some (s @ drop (length s) buf)"
      using le by (simp add: memcpy_at_def s_def f2(3) [symmetric] f2(1) [symmetric])
    have t: "take (length s) (s @ drop (length s) buf) = s" by simp
    have ff: "find_frame_end (s @ drop (length s) buf) (length s) 1 = find_frame_end s (length s) 1"
      using find_frame_end_take [of 1 "length s" "s @ drop (length s) buf"] by (simp only: t)
    show ?thesis using False
      by (simp add: pp f2(2) m Let_def f3 ff [unfolded One_nat_def] flip: ls)
  qed
qed

lemma find_frame_end_SomeD:
  "find_frame_end buf sz i = Some c \<Longrightarrow>
     \<exists>j. c = j + 1 \<and> i \<le> j \<and> j < sz \<and> frame_end_at buf j
         \<and> (\<forall>k. i \<le> k \<and> k < j \<longrightarrow> \<not> frame_end_at buf k)"
proof (induction buf sz i rule: find_frame_end.induct)
  case (1 buf sz i)
  show ?case
  proof (cases "i < sz \<and> \<not> frame_end_at buf i")
    case True
    then have "find_frame_end buf sz (i + 1) = Some c"
      using "1.prems" by (simp add: find_frame_end.simps [of buf sz i])
    then obtain j where j: "c = j + 1" "i + 1 \<le> j" "j < sz" "frame_end_at buf j"
      "\<forall>k. i + 1 \<le> k \<and> k < j \<longrightarrow> \<not> frame_end_at buf k"
      using "1.IH" True by blast
    have "\<forall>k. i \<le> k \<and> k < j \<longrightarrow> \<not> frame_end_at buf k"
    proof (intro allI impI)
      fix k assume k: "i \<le> k \<and> k < j"
      show "\<not> frame_end_at buf k"
      proof (cases "k = i")
        case True
        then show ?thesis using \<open>i < sz \<and> \<not> frame_end_at buf i\<close> by simp
      next
        case False
        then have "i + 1 \<le> k" using k by simp
        then show ?thesis using j(5) k by simp
      qed
    qed
    then show ?thesis using j by auto
  next
    case False
    then show ?thesis using "1.prems"
      by (auto simp: find_frame_end.simps [of buf sz i] split: if_splits)
  qed
qed

lemma alloc_frame_effect:
  assumes "frame_ok f0"
  shows "case alloc_frame env f0 of
           None \<Rightarrow> data f0 = None \<and> \<not> malloc_frame env
         | Some (buf1, f1) \<Rightarrow>
             (data f0 \<noteq> None \<or> malloc_frame env) \<and> data f1 = Some buf1
             \<and> length buf1 = BUFFER_SIZE \<and> capacity f1 = BUFFER_SIZE
             \<and> size_f f1 \<le> BUFFER_SIZE \<and> ready f1 = ready f0 \<and> content f1 = content f0
             \<and> size_f f1 = size_f f0
             \<and> (data f0 \<noteq> None \<longrightarrow> f1 = f0) \<and> frame_ok f1"
  using assms
  by (auto simp: alloc_frame_def frame_ok_def alloc_buffer_def content_def split: option.splits)

lemma store_frame_same:
  "store_frame dev i (frames dev ! i) = dev"
  by (simp add: store_frame_def)

lemma process_data_stage:
  assumes ok: "dev_ok dev" and vm: "valid_magic pkt"
    and al: "alloc_frame env (frames dev ! write_frame dev) = Some (buf1, f1)"
  shows "process_data env dev pkt =
           (if length pkt \<le> HEADER_SIZE then Some (store_frame dev (write_frame dev) f1)
            else process_payload env dev buf1 f1 (drop HEADER_SIZE pkt))"
proof -
  have "write_frame dev < length (frames dev)" using ok by (simp add: dev_ok_def)
  then show ?thesis using vm al by (simp add: process_data_def not_less)
qed

lemma process_data_skip:
  assumes ok: "dev_ok dev"
    and "\<not> valid_magic pkt \<or> (data (frames dev ! write_frame dev) = None \<and> \<not> malloc_frame env)"
  shows "process_data env dev pkt = Some dev"
proof -
  have "write_frame dev < length (frames dev)" using ok by (simp add: dev_ok_def)
  then show ?thesis using assms(2) by (auto simp: process_data_def alloc_frame_def)
qed

lemma process_data_overflow:
  assumes ok: "dev_ok dev" and vm: "valid_magic pkt" and len: "HEADER_SIZE < length pkt"
    and al: "data (frames dev ! write_frame dev) \<noteq> None \<or> malloc_frame env"
    and s: "s = carried (frames dev ! write_frame dev) (drop HEADER_SIZE pkt) @ drop HEADER_SIZE pkt"
    and ov: "BUFFER_SIZE < length s"
    and pl: "length pkt \<le> BUFFER_SIZE + HEADER_SIZE"
  shows "\<exists>f'. process_data env dev pkt = Some (store_frame dev (write_frame dev) f')
           \<and> frame_ok f' \<and> \<not> ready f'
           \<and> content f' = (if has_soi (drop HEADER_SIZE pkt) then drop HEADER_SIZE pkt else [])"
proof -
  define f0 where "f0 = frames dev ! write_frame dev"
  define payload where "payload = drop HEADER_SIZE pkt"
  have f0: "frame_ok f0" using ok by (simp add: f0_def dev_ok_frame dev_ok_def)
  obtain buf1 f1 where a: "alloc_frame env f0 = Some (buf1, f1)"
    using alloc_frame_effect [OF f0, of env] al by (cases "alloc_frame env f0") (auto simp: f0_def)
  have f1: "data f1 = Some buf1" "length buf1 = BUFFER_SIZE" "capacity f1 = BUFFER_SIZE"
    "size_f f1 \<le> BUFFER_SIZE" "ready f1 = ready f0" "content f1 = content f0"
    using alloc_frame_effect [OF f0, of env] a by simp_all
  have c: "carried f1 payload = carried f0 payload" using f1 by (simp add: carried_def)
  have s': "s = carried f1 payload @ payload" using s c by (simp add: f0_def payload_def)
  have lp: "length payload \<le> BUFFER_SIZE" using pl by (simp add: payload_def)
  have pd: "process_data env dev pkt = process_payload env dev buf1 f1 payload"
    using process_data_stage [OF ok vm a [unfolded f0_def]] len by (simp add: payload_def)
  show ?thesis
  proof (cases "has_soi payload")
    case True
    define f' where "f' = f1\<lparr>data := Some (payload @ drop (length payload) buf1), size_f := length payload, ready := False\<rparr>"
    have 1: "frame_ok f'" "\<not> ready f'" "content f' = payload"
      using f1 lp by (simp_all add: frame_ok_def f'_def content_def)
    have 2: "process_data env dev pkt = Some (store_frame dev (write_frame dev) f')"
      using True ov lp f1
      by (simp add: pd process_payload_stage [OF f1(1-4) s'] memcpy_at_def f'_def)
    show ?thesis using 1 2 True unfolding payload_def by (intro exI [of _ f']) simp
  next
    case False
    define f' where "f' = f1\<lparr>size_f := 0, ready := False\<rparr>"
    have 1: "frame_ok f'" "\<not> ready f'" "content f' = []"
      using f1 by (simp_all add: frame_ok_def f'_def content_def)
    have 2: "process_data env dev pkt = Some (store_frame dev (write_frame dev) f')"
      using False ov
      by (simp add: pd process_payload_stage [OF f1(1-4) s'] f'_def)
    show ?thesis using 1 2 False unfolding payload_def by (intro exI [of _ f']) simp
  qed
qed

lemma process_data_append:
  assumes ok: "dev_ok dev" and vm: "valid_magic pkt" and len: "HEADER_SIZE < length pkt"
    and al: "data (frames dev ! write_frame dev) \<noteq> None \<or> malloc_frame env"
    and s: "s = carried (frames dev ! write_frame dev) (drop HEADER_SIZE pkt) @ drop HEADER_SIZE pkt"
    and ov: "length s \<le> BUFFER_SIZE"
    and nf: "find_frame_end s (length s) 1 = None"
  shows "\<exists>f'. process_data env dev pkt = Some (store_frame dev (write_frame dev) f')
           \<and> frame_ok f' \<and> ready f' = ready (frames dev ! write_frame dev)
           \<and> content f' = (if MAX_JPEG_SIZE < length s \<and> \<not> ready (frames dev ! write_frame dev)
                            then [] else s)"
proof -
  define f0 where "f0 = frames dev ! write_frame dev"
  define payload where "payload = drop HEADER_SIZE pkt"
  have f0: "frame_ok f0" using ok by (simp add: f0_def dev_ok_frame dev_ok_def)
  obtain buf1 f1 where a: "alloc_frame env f0 = Some (buf1, f1)"
    using alloc_frame_effect [OF f0, of env] al by (cases "alloc_frame env f0") (auto simp: f0_def)
  have f1: "data f1 = Some buf1" "length buf1 = BUFFER_SIZE" "capacity f1 = BUFFER_SIZE"
    "size_f f1 \<le> BUFFER_SIZE" "ready f1 = ready f0" "content f1 = content f0"
    using alloc_frame_effect [OF f0, of env] a by simp_all
  have c: "carried f1 payload = carried f0 payload" using f1 by (simp add: carried_def)
  have s': "s = carried f1 payload @ payload" using s c by (simp add: f0_def payload_def)
  have pd: "process_data env dev pkt = process_payload env dev buf1 f1 payload"
    using process_data_stage [OF ok vm a [unfolded f0_def]] len by (simp add: payload_def)
  define f3 where "f3 = f1\<lparr>data := Some (s @ drop (length s) buf1), size_f := length s\<rparr>"
  have 1: "frame_ok (safety_check f3)" using f1 ov
    by (simp add: frame_ok_def safety_check_def f3_def)
  have 2: "ready (safety_check f3) = ready f0" using f1
    by (simp add: safety_check_def f3_def)
  have 3: "content (safety_check f3)
      = (if MAX_JPEG_SIZE < length s \<and> \<not> ready f0 then [] else s)"
    using f1 by (simp add: safety_check_def f3_def content_def)
  have 4: "process_data env dev pkt = Some (store_frame dev (write_frame dev) (safety_check f3))"
    using ov nf by (simp add: pd process_payload_stage [OF f1(1-4) s'] f3_def)
  show ?thesis using 1 2 3 4 unfolding f0_def by (intro exI [of _ "safety_check f3"]) simp
qed

lemma process_data_complete:
  assumes ok: "dev_ok dev" and vm: "valid_magic pkt" and len: "HEADER_SIZE < length pkt"
    and al: "data (frames dev ! write_frame dev) \<noteq> None \<or> malloc_frame env"
    and s: "s = carried (frames dev ! write_frame dev) (drop HEADER_SIZE pkt) @ drop HEADER_SIZE pkt"
    and ov: "length s \<le> BUFFER_SIZE"
    and fe: "find_frame_end s (length s) 1 = Some c"
  shows "\<exists>dev'. process_data env dev pkt = Some dev'
           \<and> completion_effect env dev (take c s) (drop c s) dev'"
proof -
  define f0 where "f0 = frames dev ! write_frame dev"
  define payload where "payload = drop HEADER_SIZE pkt"
  have f0: "frame_ok f0" using ok by (simp add: f0_def dev_ok_frame dev_ok_def)
  obtain buf1 f1 where a: "alloc_frame env f0 = Some (buf1, f1)"
    using alloc_frame_effect [OF f0, of env] al by (cases "alloc_frame env f0") (auto simp: f0_def)
  have f1: "data f1 = Some buf1" "length buf1 = BUFFER_SIZE" "capacity f1 = BUFFER_SIZE"
    "size_f f1 \<le> BUFFER_SIZE" "ready f1 = ready f0" "content f1 = content f0"
    using alloc_frame_effect [OF f0, of env] a by simp_all
  have c: "carried f1 payload = carried f0 payload" using f1 by (simp add: carried_def)
  have s': "s = carried f1 payload @ payload" using s c by (simp add: f0_def payload_def)
  have pd: "process_data env dev pkt = process_payload env dev buf1 f1 payload"
    using process_data_stage [OF ok vm a [unfolded f0_def]] len by (simp add: payload_def)
  define buf where "buf = s @ drop (length s) buf1"
  define f3 where "f3 = f1\<lparr>data := Some buf, size_f := length s\<rparr>"
  have cb: "0 < c" "c \<le> length s" using find_frame_end_SomeD [OF fe] by auto
  have f3: "data f3 = Some buf" "length buf = BUFFER_SIZE" "capacity f3 = BUFFER_SIZE"
    "size_f f3 \<le> BUFFER_SIZE" "size_f f3 = length s"
    using f1 ov by (simp_all add: f3_def buf_def)
  have cb': "c \<le> size_f f3" using cb f3 by simp
  have tk: "take c buf = take c s" "drop c (take (size_f f3) buf) = drop c s"
    using cb by (simp_all add: buf_def f3(5))
  have 4: "process_data env dev pkt = complete_frame env dev f3 buf c"
    using ov fe by (simp add: pd process_payload_stage [OF f1(1-4) s'] f3_def buf_def)
  show ?thesis
    using complete_frame_effect [OF ok f3(1-4) cb(1) cb', of env]
    unfolding 4 tk completion_effect_def by blast
qed

lemma store_frame_fields:
  "streaming (store_frame dev i f) = streaming dev"
  "write_frame (store_frame dev i f) = write_frame dev"
  "read_frame (store_frame dev i f) = read_frame dev"
  "frames_captured (store_frame dev i f) = frames_captured dev"
  "frames_dropped (store_frame dev i f) = frames_dropped dev"
  "frames (store_frame dev i f) = (frames dev)[i := f]"
  by (simp_all add: store_frame_def)

lemma opened_device_ok: "dev_ok opened_device"
  by (simp add: dev_ok_def opened_device_def MAX_FRAMES_def list_all_length frame_ok_def empty_frame_def)

lemma example_header_magic: "valid_magic example_header" "length example_header = HEADER_SIZE"
  by (simp_all add: valid_magic_def example_header_def HEADER_SIZE_def)

lemma example_jpeg_length: "length example_jpeg = 1000"
  by (simp add: example_jpeg_def)

lemma ready_device_ok: "dev_ok ready_device"
  by (auto simp: dev_ok_def ready_device_def opened_device_def MAX_FRAMES_def list_all_length
      frame_ok_def empty_frame_def nth_update_if example_jpeg_length BUFFER_SIZE_def)

lemma ready_device_slot:
  "read_frame ready_device = 0" "streaming ready_device"
  "frames ready_device ! 0 = \<lparr>data = Some (example_jpeg @ replicate (BUFFER_SIZE - 1000) 0),
                  size_f = 1000, capacity = BUFFER_SIZE, ready = True\<rparr>"
  by (simp_all add: ready_device_def opened_device_def MAX_FRAMES_def)

lemma start_alt:
  "\<not> streaming dev \<Longrightarrow> start_failure_of env = Some AltSettingFailure \<Longrightarrow>
   \<exists>x. camera_start_streaming env dev =
     (CAMERA_ERROR_INIT_FAILED, Some (''Failed to set alternate setting: '' @ take 222 x), dev)"
  by (auto simp: camera_start_streaming_def start_failure_of_def set_error_def split: if_splits option.splits)

lemma start_hs:
  "\<not> streaming dev \<Longrightarrow> start_failure_of env = Some HandshakeWriteFailure \<Longrightarrow>
   fst (camera_start_streaming env dev) = CAMERA_ERROR_USB_FAILED
   \<and> snd (snd (camera_start_streaming env dev)) = dev"
  by (auto simp: camera_start_streaming_def start_failure_of_def set_error_def send_command_def
      CAMERA_ERROR_USB_FAILED_def CAMERA_SUCCESS_def split: if_splits option.splits sum.splits)

lemma start_thr:
  "\<not> streaming dev \<Longrightarrow> start_failure_of env = Some ThreadCreationFailure \<Longrightarrow>
   \<exists>x. camera_start_streaming env dev =
     (CAMERA_ERROR_INIT_FAILED, Some (''Failed to create read thread: '' @ take 225 x),
      dev\<lparr>stop_event := False, streaming := False, read_thread := False\<rparr>)"
  by (auto simp: camera_start_streaming_def start_failure_of_def set_error_def send_command_def
      CAMERA_ERROR_USB_FAILED_def CAMERA_SUCCESS_def split: if_splits option.splits sum.splits)

lemma start_ok:
  "\<not> streaming dev \<Longrightarrow> start_failure_of env = None \<Longrightarrow>
   camera_start_streaming env dev =
     (CAMERA_SUCCESS, None, dev\<lparr>stop_event := False, streaming := True, read_thread := True\<rparr>)"
  by (auto simp: camera_start_streaming_def start_failure_of_def set_error_def send_command_def
      CAMERA_ERROR_USB_FAILED_def CAMERA_SUCCESS_def split: if_splits option.splits sum.splits)

lemma start_failure_surfaced:
  fixes e :: usb_env and d :: camera_device
  assumes d: "\<not> streaming d" and k: "start_failure_of e = Some k"
  shows "fst (camera_start_streaming e d) \<noteq> CAMERA_SUCCESS
      \<and> \<not> streaming (snd (snd (camera_start_streaming e d)))
      \<and> (case k of
           AltSettingFailure \<Rightarrow> \<exists>x. surfaced (camera_start_streaming e d)
              = (CAMERA_ERROR_INIT_FAILED, Some (''Failed to set alternate setting: '' @ x))
         | HandshakeWriteFailure \<Rightarrow> fst (surfaced (camera_start_streaming e d)) = CAMERA_ERROR_USB_FAILED
         | ThreadCreationFailure \<Rightarrow> \<exists>x. surfaced (camera_start_streaming e d)
              = (CAMERA_ERROR_INIT_FAILED, Some (''Failed to create read thread: '' @ x)))"
proof (cases k)
  case AltSettingFailure
  then show ?thesis using start_alt [OF d, of e] k d
    by (auto simp: surfaced_def CAMERA_ERROR_INIT_FAILED_def CAMERA_SUCCESS_def)
next
  case HandshakeWriteFailure
  then show ?thesis using start_hs [OF d, of e] k d
    by (auto simp: surfaced_def CAMERA_ERROR_USB_FAILED_def CAMERA_SUCCESS_def)
next
  case ThreadCreationFailure
  then show ?thesis using start_thr [OF d, of e] k d
    by (auto simp: surfaced_def CAMERA_ERROR_INIT_FAILED_def CAMERA_SUCCESS_def)
qed

text \<open>
  The status alone does not tell an alternate-setting failure from a thread-creation
  failure: both return \<^verbatim>\<open>CAMERA_ERROR_INIT_FAILED\<close>. The stored message does.
\<close>

lemma start_status_shared:
  assumes "\<not> streaming dev" and "\<not> streaming dev'"
    and "start_failure_of env = Some AltSettingFailure"
    and "start_failure_of env' = Some ThreadCreationFailure"
  shows "fst (camera_start_streaming env dev) = fst (camera_start_streaming env' dev')"
  using start_alt [OF assms(1,3)] start_thr [OF assms(2,4)] by auto

lemma frame_ok_content_length: "frame_ok f \<Longrightarrow> length (content f) = size_f f"
  by (auto simp: frame_ok_def content_def split: option.splits)

lemma frame_ok_size_le: "frame_ok f \<Longrightarrow> size_f f \<le> capacity f"
  by (auto simp: frame_ok_def split: option.splits)

lemma ready_slots_ok_store:
  "ready_slots_ok dev \<Longrightarrow> ready_slot_ok f \<Longrightarrow> ready_slots_ok (store_frame dev i f)"
  by (auto simp: ready_slots_ok_def store_frame_def list_all_length nth_update_if)

lemma ready_slots_ok_frame:
  "ready_slots_ok dev \<Longrightarrow> i < length (frames dev) \<Longrightarrow> ready_slot_ok (frames dev ! i)"
  by (simp add: ready_slots_ok_def list_all_length)

lemma find_frame_end_None_iff:
  "find_frame_end buf sz i = None \<longleftrightarrow> (\<forall>k. i \<le> k \<and> k < sz \<longrightarrow> \<not> frame_end_at buf k)"
proof (induction buf sz i rule: find_frame_end.induct)
  case (1 buf sz i)
  show ?case
  proof (cases "i < sz")
    case False
    then show ?thesis by (auto simp: find_frame_end.simps [of buf sz i])
  next
    case True
    show ?thesis
    proof (cases "frame_end_at buf i")
      case t: True
      then show ?thesis using True by (auto simp: find_frame_end.simps [of buf sz i])
    next
      case f: False
      have "(\<forall>k. i \<le> k \<and> k < sz \<longrightarrow> \<not> frame_end_at buf k)
            \<longleftrightarrow> (\<forall>k. i + 1 \<le> k \<and> k < sz \<longrightarrow> \<not> frame_end_at buf k)"
      proof (intro iffI allI impI)
        fix k assume a: "\<forall>k. i \<le> k \<and> k < sz \<longrightarrow> \<not> frame_end_at buf k" and "i + 1 \<le> k \<and> k < sz"
        then show "\<not> frame_end_at buf k" by simp
      next
        fix k assume a: "\<forall>k. i + 1 \<le> k \<and> k < sz \<longrightarrow> \<not> frame_end_at buf k" and k: "i \<le> k \<and> k < sz"
        show "\<not> frame_end_at buf k"
        proof (cases "k = i")
          case True then show ?thesis using f by simp
        next
          case False
          then have "i + 1 \<le> k \<and> k < sz" using k by simp
          then show ?thesis using a by blast
        qed
      qed
      then show ?thesis using True f "1.IH"
        by (simp add: find_frame_end.simps [of buf sz i])
    qed
  qed
qed

lemma find_frame_end_SomeI:
  assumes "i \<le> j" "j < sz" "frame_end_at buf j"
    and "\<forall>k. i \<le> k \<and> k < j \<longrightarrow> \<not> frame_end_at buf k"
  shows "find_frame_end buf sz i = Some (j + 1)"
proof (cases "find_frame_end buf sz i")
  case None
  then show ?thesis using assms find_frame_end_None_iff [of buf sz i] by blast
next
  case (Some c)
  then obtain j' where j': "c = j' + 1" "i \<le> j'" "j' < sz" "frame_end_at buf j'"
      "\<forall>k. i \<le> k \<and> k < j' \<longrightarrow> \<not> frame_end_at buf k"
    using find_frame_end_SomeD by blast
  have "j' = j"
  proof (rule ccontr)
    assume "j' \<noteq> j"
    then consider "j' < j" | "j < j'" by linarith
    then show False
      using assms j' by cases auto
  qed
  then show ?thesis using Some j' by simp
qed

lemma frame_end_take_jpeg:
  assumes "frame_end_at s j" "j < length s"
  shows "jpeg_bytes (take (j + 1) s)" "MIN_JPEG_SIZE \<le> j + 1"
proof -
  have m: "MIN_JPEG_SIZE \<le> j + 1" using assms by (simp add: frame_end_at_def)
  then have j: "1 \<le> j" by (simp add: MIN_JPEG_SIZE_def)
  have l: "length (take (j + 1) s) = j + 1" using assms(2) by simp
  show "MIN_JPEG_SIZE \<le> j + 1" by (rule m)
  have "take (j + 1) s ! 0 = s ! 0" "take (j + 1) s ! 1 = s ! 1"
    "take (j + 1) s ! (j - 1) = s ! (j - 1)" "take (j + 1) s ! j = s ! j"
    using j by simp_all
  moreover have "j + 1 - 2 = j - 1" "j + 1 - 1 = j" using j by simp_all
  ultimately show "jpeg_bytes (take (j + 1) s)"
    using assms(1) j unfolding jpeg_bytes_def l frame_end_at_def by simp
qed

lemma ready_jpeg_is_found:
  assumes "jpeg_bytes c" "MIN_JPEG_SIZE \<le> length c"
  shows "find_frame_end (c @ p) (length (c @ p)) 1 \<noteq> None"
proof -
  have n: "2 \<le> length c" using assms(2) by (simp add: MIN_JPEG_SIZE_def)
  define j where "j = length c - 1"
  have j: "1 \<le> j" "j < length c" "j - 1 = length c - 2" "j - 1 < length c" using n by (simp_all add: j_def)
  have "(c @ p) ! 0 = c ! 0" "(c @ p) ! 1 = c ! 1" "(c @ p) ! (j - 1) = c ! (length c - 2)"
    "(c @ p) ! j = c ! (length c - 1)"
    using n j by (auto simp: nth_append j_def)
  then have "frame_end_at (c @ p) j"
    using assms j unfolding frame_end_at_def jpeg_bytes_def by (simp add: j_def)
  moreover have "j < length (c @ p)" using j by simp
  ultimately show ?thesis using find_frame_end_None_iff j(1) by blast
qed

lemma process_data_cases [consumes 1, case_names skip short long overflow append complete]:
  assumes ok: "dev_ok dev"
  obtains
    (skip) "\<not> valid_magic pkt
              \<or> (data (frames dev ! write_frame dev) = None \<and> \<not> malloc_frame env)"
      "process_data env dev pkt = Some dev"
  | (short) f1 where "valid_magic pkt" "length pkt \<le> HEADER_SIZE"
      "process_data env dev pkt = Some (store_frame dev (write_frame dev) f1)"
      "frame_ok f1" "ready f1 = ready (frames dev ! write_frame dev)"
      "size_f f1 = size_f (frames dev ! write_frame dev)"
      "content f1 = content (frames dev ! write_frame dev)"
  | (long) "BUFFER_SIZE + HEADER_SIZE < length pkt"
  | (overflow) f' where "valid_magic pkt" "HEADER_SIZE < length pkt"
      "BUFFER_SIZE < length (accumulated dev pkt)"
      "process_data env dev pkt = Some (store_frame dev (write_frame dev) f')"
      "frame_ok f'" "\<not> ready f'"
      "content f' = (if has_soi (drop HEADER_SIZE pkt) then drop HEADER_SIZE pkt else [])"
  | (append) f' where "valid_magic pkt" "HEADER_SIZE < length pkt"
      "data (frames dev ! write_frame dev) \<noteq> None \<or> malloc_frame env"
      "length (accumulated dev pkt) \<le> BUFFER_SIZE"
      "find_frame_end (accumulated dev pkt) (length (accumulated dev pkt)) 1 = None"
      "process_data env dev pkt = Some (store_frame dev (write_frame dev) f')"
      "frame_ok f'" "ready f' = ready (frames dev ! write_frame dev)"
      "content f' = (if MAX_JPEG_SIZE < length (accumulated dev pkt)
                        \<and> \<not> ready (frames dev ! write_frame dev)
                     then [] else accumulated dev pkt)"
  | (complete) c dev' where "valid_magic pkt" "HEADER_SIZE < length pkt"
      "data (frames dev ! write_frame dev) \<noteq> None \<or> malloc_frame env"
      "length (accumulated dev pkt) \<le> BUFFER_SIZE"
      "find_frame_end (accumulated dev pkt) (length (accumulated dev pkt)) 1 = Some c"
      "process_data env dev pkt = Some dev'"
      "completion_effect env dev (take c (accumulated dev pkt)) (drop c (accumulated dev pkt)) dev'"
proof -
  define f0 where "f0 = frames dev ! write_frame dev"
  define s where "s = accumulated dev pkt"
  have s: "s = carried (frames dev ! write_frame dev) (drop HEADER_SIZE pkt) @ drop HEADER_SIZE pkt"
    by (simp add: s_def accumulated_def)
  have f0: "frame_ok f0" using ok by (simp add: f0_def dev_ok_frame dev_ok_def)
  show thesis
  proof (cases "\<not> valid_magic pkt \<or> (data f0 = None \<and> \<not> malloc_frame env)")
    case True
    then show thesis
      using skip process_data_skip [OF ok, of pkt env] by (simp add: f0_def)
  next
    case False
    then have vm: "valid_magic pkt" and al: "data f0 \<noteq> None \<or> malloc_frame env" by auto
    show thesis
    proof (cases "length pkt \<le> HEADER_SIZE")
      case True
      obtain buf1 f1 where a: "alloc_frame env f0 = Some (buf1, f1)"
        using alloc_frame_effect [OF f0, of env] al by (cases "alloc_frame env f0") auto
      have f1: "frame_ok f1" "ready f1 = ready f0" "size_f f1 = size_f f0" "content f1 = content f0"
        using alloc_frame_effect [OF f0, of env] a by simp_all
      have "process_data env dev pkt = Some (store_frame dev (write_frame dev) f1)"
        using process_data_stage [OF ok vm a [unfolded f0_def]] True by simp
      then show thesis using short [of f1] vm True f1 by (simp add: f0_def)
    next
      case False
      then have len: "HEADER_SIZE < length pkt" by simp
      show thesis
      proof (cases "BUFFER_SIZE < length s")
        case True
        show thesis
        proof (cases "BUFFER_SIZE + HEADER_SIZE < length pkt")
          case True
          then show thesis by (rule long)
        next
          case False
          then have pl: "length pkt \<le> BUFFER_SIZE + HEADER_SIZE" by simp
          obtain f' where "process_data env dev pkt = Some (store_frame dev (write_frame dev) f')"
            "frame_ok f'" "\<not> ready f'"
            "content f' = (if has_soi (drop HEADER_SIZE pkt) then drop HEADER_SIZE pkt else [])"
            using process_data_overflow [OF ok vm len al [unfolded f0_def] s True pl] by blast
          then show thesis using overflow [of f'] vm len True by (simp add: s_def)
        qed
      next
        case False
        then have ov: "length s \<le> BUFFER_SIZE" by simp
        show thesis
        proof (cases "find_frame_end s (length s) 1")
          case None
          obtain f' where "process_data env dev pkt = Some (store_frame dev (write_frame dev) f')"
            "frame_ok f'" "ready f' = ready (frames dev ! write_frame dev)"
            "content f' = (if MAX_JPEG_SIZE < length s \<and> \<not> ready (frames dev ! write_frame dev)
                            then [] else s)"
            using process_data_append [OF ok vm len al [unfolded f0_def] s ov None] by blast
          then show thesis using append [of f'] vm len al ov None by (simp add: s_def f0_def)
        next
          case (Some c)
          obtain dev' where "process_data env dev pkt = Some dev'"
            "completion_effect env dev (take c s) (drop c s) dev'"
            using process_data_complete [OF ok vm len al [unfolded f0_def] s ov Some] by blast
          then show thesis using complete [of c dev'] vm len al ov Some by (simp add: s_def f0_def)
        qed
      qed
    qed
  qed
qed

lemma process_data_total:
  assumes ok: "dev_ok dev" and pl: "length pkt \<le> BUFFER_SIZE + HEADER_SIZE"
  shows "\<exists>dev'. process_data env dev pkt = Some dev' \<and> dev_ok dev'
           \<and> streaming dev' = streaming dev"
  using ok
proof (cases rule: process_data_cases [where pkt = pkt and env = env])
  case skip
  then show ?thesis using ok by simp
next
  case (short f1)
  then show ?thesis using ok by (simp add: dev_ok_store store_frame_fields)
next
  case long
  then show ?thesis using pl by simp
next
  case (overflow f')
  then show ?thesis using ok by (simp add: dev_ok_store store_frame_fields)
next
  case (append f')
  then show ?thesis using ok by (simp add: dev_ok_store store_frame_fields)
next
  case (complete c dev')
  then show ?thesis by (simp add: completion_effect_def)
qed

lemma read_loop_not_ready:
  assumes "read_frame dev < length (frames dev)" "\<not> ready (frames dev ! read_frame dev)"
  shows "camera_read_frame_loop dev buffer_size timeout_ms wait_failure =
     (case wait_failure of
        Some e \<Rightarrow> Returns (CAMERA_ERROR_USB_FAILED, [],
                    Some (set_error (''Wait failed: '' @ fmt_d (sint e))), dev)
      | None \<Rightarrow>
          if wait_timeout timeout_ms \<noteq> INFINITE
          then Returns (CAMERA_ERROR_TIMEOUT, [], Some (set_error ''Timeout waiting for frame''),
                 dev\<lparr>frame_ready_event := False\<rparr>)
          else Blocks)"
proof (cases "frame_ready_event dev")
  case False
  then have "dev\<lparr>frame_ready_event := False\<rparr> = dev" by simp
  then show ?thesis using assms False
    by (simp add: camera_read_frame_loop.simps [of dev] split: option.splits)
next
  case True
  have eq: "\<And>t. camera_read_frame_loop (dev\<lparr>frame_ready_event := False\<rparr>) buffer_size t None
      = (if wait_timeout t \<noteq> INFINITE
          then Returns (CAMERA_ERROR_TIMEOUT, [], Some (set_error ''Timeout waiting for frame''),
                 dev\<lparr>frame_ready_event := False\<rparr>)
          else Blocks)"
    using assms by (simp add: camera_read_frame_loop.simps [of "dev\<lparr>frame_ready_event := False\<rparr>"])
  show ?thesis using assms True
    by (simp add: camera_read_frame_loop.simps [of dev] eq split: option.splits)
qed

lemma read_loop_ready:
  assumes "dev_ok dev" "ready (frames dev ! read_frame dev)"
  shows "camera_read_frame_loop dev buffer_size timeout_ms wait_failure =
     (if buffer_size < size_f (frames dev ! read_frame dev)
      then Returns (CAMERA_ERROR_BUFFER_SMALL, [],
             Some (set_error (''Buffer too small: need ''
                     @ fmt_u (size_f (frames dev ! read_frame dev))
                     @ '' bytes, have '' @ fmt_u buffer_size)), dev)
      else Returns (CAMERA_SUCCESS, content (frames dev ! read_frame dev), None,
             (store_frame dev (read_frame dev)
                ((frames dev ! read_frame dev)\<lparr>ready := False, size_f := 0\<rparr>))
               \<lparr>read_frame := (read_frame dev + 1) mod MAX_FRAMES\<rparr>))"
proof -
  have r: "read_frame dev < length (frames dev)"
    using assms(1) by (simp add: dev_ok_def)
  have fo: "frame_ok (frames dev ! read_frame dev)"
    using assms(1) by (simp add: dev_ok_frame dev_ok_def)
  from fo assms(2) obtain buf where buf: "data (frames dev ! read_frame dev) = Some buf"
    "length buf = BUFFER_SIZE" "size_f (frames dev ! read_frame dev) \<le> BUFFER_SIZE"
    by (auto simp: frame_ok_def split: option.splits)
  show ?thesis using r assms(2) buf
    by (simp add: camera_read_frame_loop.simps [of dev] content_def)
qed

lemma consumed_ok:
  assumes "dev_ok dev"
  shows "dev_ok ((store_frame dev (read_frame dev)
                ((frames dev ! read_frame dev)\<lparr>ready := False, size_f := 0\<rparr>))
               \<lparr>read_frame := (read_frame dev + 1) mod MAX_FRAMES\<rparr>)"
proof -
  have "frame_ok (frames dev ! read_frame dev)"
    using assms by (simp add: dev_ok_frame dev_ok_def)
  then have "frame_ok ((frames dev ! read_frame dev)\<lparr>ready := False, size_f := 0\<rparr>)"
    by (auto simp: frame_ok_def split: option.splits)
  then have "dev_ok (store_frame dev (read_frame dev)
                ((frames dev ! read_frame dev)\<lparr>ready := False, size_f := 0\<rparr>))"
    using assms by (rule dev_ok_store [rotated])
  then show ?thesis by (simp add: dev_ok_def succ_mod_less)
qed

lemma process_data_ready_slots:
  assumes ok: "dev_ok dev" and rs: "ready_slots_ok dev" and pl: "length pkt \<le> BUFFER_SIZE + HEADER_SIZE"
  shows "\<exists>dev'. process_data env dev pkt = Some dev' \<and> dev_ok dev' \<and> ready_slots_ok dev'"
  using ok
proof (cases rule: process_data_cases [where pkt = pkt and env = env])
  case skip
  then show ?thesis using ok rs by simp
next
  case (short f1)
  have w: "write_frame dev < length (frames dev)" using ok by (simp add: dev_ok_def)
  have "ready_slot_ok (frames dev ! write_frame dev)"
    using rs w by (rule ready_slots_ok_frame)
  then have "ready_slot_ok f1"
    using short(4-7) frame_ok_size_le [OF short(4)] by (simp add: ready_slot_ok_def)
  then show ?thesis using short ok rs by (simp add: dev_ok_store ready_slots_ok_store)
next
  case long
  then show ?thesis using pl by simp
next
  case (overflow f')
  then have "ready_slot_ok f'" by (simp add: ready_slot_ok_def)
  then show ?thesis using overflow ok rs by (simp add: dev_ok_store ready_slots_ok_store)
next
  case (append f')
  have w: "write_frame dev < length (frames dev)" using ok by (simp add: dev_ok_def)
  have r0: "ready_slot_ok (frames dev ! write_frame dev)"
    using rs w by (rule ready_slots_ok_frame)
  have "\<not> ready (frames dev ! write_frame dev)"
  proof
    assume rd: "ready (frames dev ! write_frame dev)"
    then have "accumulated dev pkt = content (frames dev ! write_frame dev) @ drop HEADER_SIZE pkt"
      by (simp add: accumulated_def carried_def)
    moreover have "jpeg_bytes (content (frames dev ! write_frame dev))"
      "MIN_JPEG_SIZE \<le> length (content (frames dev ! write_frame dev))"
      using r0 rd by (simp_all add: ready_slot_ok_def)
    ultimately show False
      using ready_jpeg_is_found append(5) by metis
  qed
  then have "ready_slot_ok f'" using append(8) by (simp add: ready_slot_ok_def)
  then show ?thesis using append ok rs by (simp add: dev_ok_store ready_slots_ok_store)
next
  case (complete c dev')
  define s where "s = accumulated dev pkt"
  define w where "w = write_frame dev"
  define nw where "nw = (write_frame dev + 1) mod MAX_FRAMES"
  note ce = complete(7) [unfolded completion_effect_def, folded s_def w_def nw_def]
  obtain j where j: "c = j + 1" "j < length s" "frame_end_at s j"
    using find_frame_end_SomeD [OF complete(5)] by (auto simp: s_def)
  have ok': "dev_ok dev'" using ce by simp
  have len: "length (frames dev') = MAX_FRAMES" "length (frames dev) = MAX_FRAMES"
    "w < MAX_FRAMES"
    using ok' ok by (simp_all add: dev_ok_def w_def)
  have W: "ready_slot_ok (frames dev' ! w)"
  proof -
    have "content (frames dev' ! w) = take (j + 1) s" using ce j by simp
    moreover have "frame_ok (frames dev' ! w)" using ok' len by (simp add: dev_ok_frame)
    ultimately show ?thesis
      using frame_end_take_jpeg [OF j(3,2)] frame_ok_content_length [of "frames dev' ! w"]
        frame_ok_size_le [of "frames dev' ! w"] j(2)
      by (simp add: ready_slot_ok_def)
  qed
  have N: "ready_slot_ok (frames dev' ! nw)" using ce by (simp add: ready_slot_ok_def)
  have "\<forall>i < length (frames dev'). ready_slot_ok (frames dev' ! i)"
  proof (intro allI impI)
    fix i assume i: "i < length (frames dev')"
    show "ready_slot_ok (frames dev' ! i)"
    proof (cases "i = w \<or> i = nw")
      case True
      then show ?thesis using W N by auto
    next
      case False
      then have "frames dev' ! i = frames dev ! i" using ce by simp
      then show ?thesis using rs i len by (simp add: ready_slots_ok_frame)
    qed
  qed
  then have "ready_slots_ok dev'" by (simp add: ready_slots_ok_def list_all_length)
  then show ?thesis using complete(6) ok' by simp
qed

lemma stop_ready_slots:
  assumes "dev_ok dev"
  shows "dev_ok (camera_stop_streaming dev)" "ready_slots_ok dev \<Longrightarrow> ready_slots_ok (camera_stop_streaming dev)"
proof -
  have "\<And>f. frame_ok f \<Longrightarrow> frame_ok (f\<lparr>ready := False, size_f := 0\<rparr>)"
    by (auto simp: frame_ok_def split: option.splits)
  then show "dev_ok (camera_stop_streaming dev)"
    using assms
    by (auto simp: camera_stop_streaming_def dev_ok_def list_all_length MAX_FRAMES_def)
  show "ready_slots_ok dev \<Longrightarrow> ready_slots_ok (camera_stop_streaming dev)"
    by (auto simp: camera_stop_streaming_def ready_slots_ok_def list_all_length ready_slot_ok_def)
qed

lemma start_keeps_frames:
  "frames (snd (snd (camera_start_streaming uenv dev))) = frames dev"
  "write_frame (snd (snd (camera_start_streaming uenv dev))) = write_frame dev"
  "read_frame (snd (snd (camera_start_streaming uenv dev))) = read_frame dev"
  "frames_captured (snd (snd (camera_start_streaming uenv dev))) = frames_captured dev"
  "frames_dropped (snd (snd (camera_start_streaming uenv dev))) = frames_dropped dev"
  by (auto simp: camera_start_streaming_def split: option.splits prod.splits)

lemma read_frame_ready_slots:
  assumes ok: "dev_ok dev" and rs: "ready_slots_ok dev"
  shows "camera_read_frame dev buffer_size timeout_ms wait_failure \<noteq> Faults"
    and "camera_read_frame dev buffer_size timeout_ms wait_failure = Returns (st, bytes, msg, dev')
         \<Longrightarrow> dev_ok dev' \<and> ready_slots_ok dev'
             \<and> (st = CAMERA_SUCCESS \<longrightarrow>
                   jpeg_bytes bytes \<and> MIN_JPEG_SIZE \<le> length bytes \<and> length bytes \<le> BUFFER_SIZE)"
proof -
  define f where "f = frames dev ! read_frame dev"
  have r: "read_frame dev < length (frames dev)" using ok by (simp add: dev_ok_def)
  have fo: "frame_ok f" using ok by (simp add: f_def dev_ok_frame dev_ok_def)
  have so: "ready_slot_ok f" using rs r by (simp add: f_def ready_slots_ok_frame)
  have ev: "dev_ok (dev\<lparr>frame_ready_event := False\<rparr>)"
    "ready_slots_ok (dev\<lparr>frame_ready_event := False\<rparr>)"
    using ok rs by (simp_all add: dev_ok_def ready_slots_ok_def)
  have cons: "dev_ok ((store_frame dev (read_frame dev) (f\<lparr>ready := False, size_f := 0\<rparr>))
               \<lparr>read_frame := (read_frame dev + 1) mod MAX_FRAMES\<rparr>)"
    using consumed_ok [OF ok] by (simp add: f_def)
  have "ready_slots_ok (store_frame dev (read_frame dev) (f\<lparr>ready := False, size_f := 0\<rparr>))"
    using rs by (rule ready_slots_ok_store) (simp add: ready_slot_ok_def)
  then have cons': "ready_slots_ok ((store_frame dev (read_frame dev) (f\<lparr>ready := False, size_f := 0\<rparr>))
               \<lparr>read_frame := (read_frame dev + 1) mod MAX_FRAMES\<rparr>)"
    by (simp add: ready_slots_ok_def)
  have sz: "ready f \<Longrightarrow> size_f f \<le> BUFFER_SIZE"
    using fo by (auto simp: frame_ok_def split: option.splits)
  show "camera_read_frame dev buffer_size timeout_ms wait_failure \<noteq> Faults"
    using read_loop_ready [OF ok, of buffer_size timeout_ms wait_failure]
      read_loop_not_ready [OF r, of buffer_size timeout_ms wait_failure]
    by (cases "ready f") (auto simp: camera_read_frame_def f_def split: option.splits)
  assume ret: "camera_read_frame dev buffer_size timeout_ms wait_failure = Returns (st, bytes, msg, dev')"
  show "dev_ok dev' \<and> ready_slots_ok dev'
             \<and> (st = CAMERA_SUCCESS \<longrightarrow>
                   jpeg_bytes bytes \<and> MIN_JPEG_SIZE \<le> length bytes \<and> length bytes \<le> BUFFER_SIZE)"
  proof (cases "streaming dev")
    case False
    then show ?thesis using ret ok rs
      by (auto simp: camera_read_frame_def CAMERA_ERROR_NO_FRAME_def CAMERA_SUCCESS_def)
  next
    case True
    show ?thesis
    proof (cases "ready f")
      case rd: True
      then show ?thesis
        using ret True read_loop_ready [OF ok, of buffer_size timeout_ms wait_failure] ok rs
          cons cons' so sz
        by (auto simp: camera_read_frame_def f_def CAMERA_ERROR_BUFFER_SMALL_def CAMERA_SUCCESS_def
            ready_slot_ok_def split: if_splits)
    next
      case nr: False
      then show ?thesis
        using ret True read_loop_not_ready [OF r, of buffer_size timeout_ms wait_failure] ok rs ev
        by (auto simp: camera_read_frame_def f_def CAMERA_ERROR_USB_FAILED_def
            CAMERA_ERROR_TIMEOUT_def CAMERA_SUCCESS_def split: if_splits option.splits)
    qed
  qed
qed

lemma example_jpeg_ok: "jpeg_bytes example_jpeg"
  by (simp add: jpeg_bytes_def example_jpeg_def nth_append)

lemma ready_device_slots_ok: "ready_slots_ok ready_device"
  by (auto simp: ready_slots_ok_def ready_device_def opened_device_def MAX_FRAMES_def
      list_all_length nth_update_if ready_slot_ok_def empty_frame_def content_def
      example_jpeg_length example_jpeg_ok MIN_JPEG_SIZE_def BUFFER_SIZE_def)

lemma header_short: "length example_header \<le> BUFFER_SIZE"
  by (simp add: example_header_def BUFFER_SIZE_def)

lemma filling_device_ok: "dev_ok filling_device"
  by (auto simp: dev_ok_def filling_device_def opened_device_def MAX_FRAMES_def list_all_length
      frame_ok_def empty_frame_def nth_update_if BUFFER_SIZE_def)

lemma filling_device_slot:
  "write_frame filling_device = 0"
  "frames filling_device ! 0 = \<lparr>data = Some (replicate BUFFER_SIZE 0),
                  size_f = 61000, capacity = BUFFER_SIZE, ready = False\<rparr>"
  by (simp_all add: filling_device_def opened_device_def MAX_FRAMES_def)

lemma zero_packet_facts:
  "valid_magic zero_packet" "length zero_packet = 5012" "drop HEADER_SIZE zero_packet = replicate 5000 0"
  "\<not> has_soi (replicate 5000 0)"
  by (simp_all add: zero_packet_def example_header_def valid_magic_def HEADER_SIZE_def has_soi_def)

lemma filling_accumulated: "length (accumulated filling_device zero_packet) = 66000"
  by (simp add: accumulated_def filling_device_slot zero_packet_facts carried_def content_def
      BUFFER_SIZE_def)

lemma frame_end_at_iff:
  "frame_end_at s i \<longleftrightarrow>
     eoi_at s i \<and> MIN_JPEG_SIZE - 1 \<le> i \<and> s ! 0 = 0xFF \<and> s ! 1 = 0xD8"
  by (auto simp: frame_end_at_def eoi_at_def)

lemma first_eoi_from_Some:
  "first_eoi_from s k = Some i \<longleftrightarrow>
     k \<le> i \<and> i < length s \<and> eoi_at s i \<and> (\<forall>j. k \<le> j \<and> j < i \<longrightarrow> \<not> eoi_at s j)"
proof
  assume "first_eoi_from s k = Some i"
  then obtain n where n: "n < length [k ..< length s]" "eoi_at s ([k ..< length s] ! n)"
    "i = [k ..< length s] ! n" "\<forall>j<n. \<not> eoi_at s ([k ..< length s] ! j)"
    unfolding first_eoi_from_def find_Some_iff by blast
  have i: "i = k + n" "k + n < length s" using n(1,3) by simp_all
  have "\<forall>j. k \<le> j \<and> j < i \<longrightarrow> \<not> eoi_at s j"
  proof (intro allI impI)
    fix j assume j: "k \<le> j \<and> j < i"
    then have "j - k < n" using i by linarith
    moreover have "[k ..< length s] ! (j - k) = j" using j i by simp
    ultimately show "\<not> eoi_at s j" using n(4) by metis
  qed
  then show "k \<le> i \<and> i < length s \<and> eoi_at s i \<and> (\<forall>j. k \<le> j \<and> j < i \<longrightarrow> \<not> eoi_at s j)"
    using i n(2,3) by simp
next
  assume "k \<le> i \<and> i < length s \<and> eoi_at s i \<and> (\<forall>j. k \<le> j \<and> j < i \<longrightarrow> \<not> eoi_at s j)"
  then have a: "k \<le> i" "i < length s" "eoi_at s i" "\<forall>j. k \<le> j \<and> j < i \<longrightarrow> \<not> eoi_at s j"
    by blast+
  have 1: "i - k < length [k ..< length s]" using a(1,2) by simp
  have 2: "[k ..< length s] ! (i - k) = i" using a(1,2) by simp
  have 3: "\<forall>j<i - k. \<not> eoi_at s ([k ..< length s] ! j)"
    using a by simp
  show "first_eoi_from s k = Some i"
    unfolding first_eoi_from_def find_Some_iff
    using 1 2 3 a(3) by (intro exI [of _ "i - k"]) simp
qed

lemma first_eoi_from_None:
  "first_eoi_from s k = None \<longleftrightarrow> (\<forall>j. k \<le> j \<and> j < length s \<longrightarrow> \<not> eoi_at s j)"
  by (auto simp: first_eoi_from_def find_None_iff)

lemma find_frame_end_eq: "find_frame_end s (length s) 1 = first_accepted_end s"
proof (cases "s ! 0 = 0xFF \<and> s ! 1 = 0xD8")
  case False
  then have "\<forall>k. 1 \<le> k \<and> k < length s \<longrightarrow> \<not> frame_end_at s k"
    by (auto simp: frame_end_at_iff)
  then have "find_frame_end s (length s) 1 = None"
    by (simp only: find_frame_end_None_iff)
  then show ?thesis using False by (auto simp: first_accepted_end_def)
next
  case True
  have m: "1 \<le> MIN_JPEG_SIZE - 1" by (simp add: MIN_JPEG_SIZE_def)
  show ?thesis
  proof (cases "first_eoi_from s (MIN_JPEG_SIZE - 1)")
    case None
    then have "\<forall>k. 1 \<le> k \<and> k < length s \<longrightarrow> \<not> frame_end_at s k"
      by (auto simp: frame_end_at_iff first_eoi_from_None)
    then have "find_frame_end s (length s) 1 = None"
      by (simp only: find_frame_end_None_iff)
    then show ?thesis using True None by (simp add: first_accepted_end_def)
  next
    case (Some i)
    then have i: "MIN_JPEG_SIZE - 1 \<le> i" "i < length s" "eoi_at s i"
      "\<forall>j. MIN_JPEG_SIZE - 1 \<le> j \<and> j < i \<longrightarrow> \<not> eoi_at s j"
      by (simp_all add: first_eoi_from_Some)
    have "find_frame_end s (length s) 1 = Some (i + 1)"
    proof (rule find_frame_end_SomeI)
      show "1 \<le> i" using i(1) m by simp
      show "i < length s" by (rule i(2))
      show "frame_end_at s i" using i True by (simp add: frame_end_at_iff)
      show "\<forall>k. 1 \<le> k \<and> k < i \<longrightarrow> \<not> frame_end_at s k"
        using i(4) by (auto simp: frame_end_at_iff)
    qed
    then show ?thesis using True Some by (simp add: first_accepted_end_def)
  qed
qed

lemma example_jpeg_end: "first_accepted_end example_jpeg = Some 1000"
proof -
  have "first_eoi_from example_jpeg 999 = Some 999"
    unfolding first_eoi_from_Some
    by (simp add: example_jpeg_length) (simp add: eoi_at_def example_jpeg_def nth_append)
  then show ?thesis
    by (simp add: first_accepted_end_def MIN_JPEG_SIZE_def) (simp add: example_jpeg_def)
qed

lemma started_device_eq:
  "started_device = opened_device\<lparr>stop_event := False, streaming := True, read_thread := True\<rparr>"
proof -
  have "start_failure_of usb_ok = None"
    by (simp add: start_failure_of_def usb_ok_def CONNECT_CMD_SIZE_def)
  moreover have "\<not> streaming opened_device" by (simp add: opened_device_def)
  ultimately show ?thesis by (simp add: started_device_def start_ok)
qed

lemma started_device_ok: "dev_ok started_device"
  using opened_device_ok by (simp add: started_device_eq dev_ok_def)

lemma started_device_fields:
  "write_frame started_device = 0" "read_frame started_device = 0" "streaming started_device"
  "frames_captured started_device = 0" "frames_dropped started_device = 0"
  "frames started_device = replicate MAX_FRAMES empty_frame"
  by (simp_all add: started_device_eq opened_device_def)

lemma example_packet_facts:
  "valid_magic example_packet" "HEADER_SIZE < length example_packet"
  "drop HEADER_SIZE example_packet = example_jpeg" "length example_packet \<le> BUFFER_SIZE"
  by (simp_all add: example_packet_def example_header_def valid_magic_def HEADER_SIZE_def
      example_jpeg_length BUFFER_SIZE_def)

lemma started_accumulated: "accumulated started_device example_packet = example_jpeg"
  by (simp add: accumulated_def example_packet_facts carried_def content_def
      started_device_fields MAX_FRAMES_def empty_frame_def)

lemma started_one_frame:
  "\<exists>dev'. process_data all_ok started_device example_packet = Some dev'
      \<and> completion_effect all_ok started_device example_jpeg [] dev'"
proof -
  have al: "data (frames started_device ! write_frame started_device) \<noteq> None \<or> malloc_frame all_ok"
    by (simp add: all_ok_def)
  have s: "example_jpeg = carried (frames started_device ! write_frame started_device)
      (drop HEADER_SIZE example_packet) @ drop HEADER_SIZE example_packet"
    using started_accumulated by (simp add: accumulated_def)
  have ov: "length example_jpeg \<le> BUFFER_SIZE" by (simp add: example_jpeg_length BUFFER_SIZE_def)
  have fe: "find_frame_end example_jpeg (length example_jpeg) 1 = Some 1000"
    by (simp only: find_frame_end_eq example_jpeg_end)
  show ?thesis
    using process_data_complete [OF started_device_ok example_packet_facts(1,2) al s ov fe]
    by (simp add: example_jpeg_length)
qed

lemma process_data_counters:
  assumes "dev_ok dev" "length pkt \<le> BUFFER_SIZE"
  shows "\<exists>dev'. process_data env dev pkt = Some dev'
     \<and> (frames_captured dev' = frames_captured dev \<or> frames_captured dev' = frames_captured dev + 1)
     \<and> (frames_dropped dev' = frames_dropped dev \<or> frames_dropped dev' = frames_dropped dev + 1)"
  using assms(1)
proof (cases rule: process_data_cases [where pkt = pkt and env = env])
  case (complete c dev')
  then show ?thesis by (auto simp: completion_effect_def)
qed (use assms(2) in \<open>simp_all add: store_frame_fields\<close>)

lemma header_facts:
  "valid_magic (example_header @ p)" "length (example_header @ p) = HEADER_SIZE + length p"
  "drop HEADER_SIZE (example_header @ p) = p"
proof -
  show "length (example_header @ p) = HEADER_SIZE + length p"
    by (simp add: example_header_def HEADER_SIZE_def)
  show "drop HEADER_SIZE (example_header @ p) = p"
    by (simp add: example_header_def HEADER_SIZE_def)
  show "valid_magic (example_header @ p)"
    by (simp add: example_header_def valid_magic_def)
qed

lemma started_accumulated_any:
  "accumulated started_device (example_header @ p) = p"
  by (simp add: accumulated_def example_header_magic(2) carried_def content_def
      started_device_fields MAX_FRAMES_def empty_frame_def)

lemma started_write_slot:
  "frames started_device ! write_frame started_device = empty_frame"
  "frames started_device ! ((write_frame started_device + 1) mod MAX_FRAMES) = empty_frame"
  by (simp_all add: started_device_fields MAX_FRAMES_def)

lemma early_eoi_length: "length early_eoi_jpeg = 1000"
  by (simp add: early_eoi_jpeg_def)

lemma early_eoi_first: "first_eoi_from early_eoi_jpeg 1 = Some 3"
proof -
  have "\<And>j. 1 \<le> j \<and> j < 3 \<longrightarrow> \<not> eoi_at early_eoi_jpeg j"
  proof
    fix j :: nat assume "1 \<le> j \<and> j < 3"
    then have "j = 1 \<or> j = 2" by auto
    then show "\<not> eoi_at early_eoi_jpeg j"
      by (auto simp: eoi_at_def early_eoi_jpeg_def)
  qed
  then show ?thesis
    unfolding first_eoi_from_Some
    by (simp add: early_eoi_length) (simp add: eoi_at_def early_eoi_jpeg_def)
qed

lemma early_eoi_end: "first_accepted_end early_eoi_jpeg = Some 1000"
proof -
  have "first_eoi_from early_eoi_jpeg 999 = Some 999"
    unfolding first_eoi_from_Some
    by (simp add: early_eoi_length) (simp add: eoi_at_def early_eoi_jpeg_def nth_append)
  then show ?thesis
    by (simp add: first_accepted_end_def MIN_JPEG_SIZE_def) (simp add: early_eoi_jpeg_def)
qed

lemma process_data_by_first_accepted_end:
  assumes ok: "dev_ok dev" and vm: "valid_magic pkt" and len: "HEADER_SIZE < length pkt"
    and al: "data (frames dev ! write_frame dev) \<noteq> None \<or> malloc_frame env"
    and ov: "length (accumulated dev pkt) \<le> BUFFER_SIZE"
  shows "case first_accepted_end (accumulated dev pkt) of
           None \<Rightarrow>
             (\<exists>f'. process_data env dev pkt = Some (store_frame dev (write_frame dev) f')
                \<and> frame_ok f' \<and> ready f' = ready (frames dev ! write_frame dev)
                \<and> content f' = (if MAX_JPEG_SIZE < length (accumulated dev pkt)
                                   \<and> \<not> ready (frames dev ! write_frame dev)
                                 then [] else accumulated dev pkt))
         | Some c \<Rightarrow>
             (\<exists>dev'. process_data env dev pkt = Some dev'
                \<and> completion_effect env dev (take c (accumulated dev pkt))
                     (drop c (accumulated dev pkt)) dev')"
proof (cases "first_accepted_end (accumulated dev pkt)")
  case None
  then have "find_frame_end (accumulated dev pkt) (length (accumulated dev pkt)) 1 = None"
    by (simp only: find_frame_end_eq)
  then show ?thesis
    using process_data_append [OF ok vm len al accumulated_def ov] None by simp
next
  case (Some c)
  then have "find_frame_end (accumulated dev pkt) (length (accumulated dev pkt)) 1 = Some c"
    by (simp only: find_frame_end_eq)
  then show ?thesis
    using process_data_complete [OF ok vm len al accumulated_def ov] Some by simp
qed

lemma example_jpeg_then_tail: "first_accepted_end (example_jpeg @ t) = Some 1000"
proof -
  have "first_eoi_from (example_jpeg @ t) 999 = Some 999"
    unfolding first_eoi_from_Some
    by (simp add: example_jpeg_length) (simp add: eoi_at_def example_jpeg_def nth_append)
  then show ?thesis
    by (simp add: first_accepted_end_def MIN_JPEG_SIZE_def) (simp add: example_jpeg_def)
qed

lemma started_jpeg_then_tail:
  assumes "length t \<le> 64000"
  shows "\<exists>d. process_data all_ok started_device (example_header @ example_jpeg @ t) = Some d
           \<and> completion_effect all_ok started_device example_jpeg t d"
proof -
  define pkt where "pkt = example_header @ example_jpeg @ t"
  have acc: "accumulated started_device pkt = example_jpeg @ t"
    by (simp add: pkt_def started_accumulated_any)
  have al: "data (frames started_device ! write_frame started_device) \<noteq> None \<or> malloc_frame all_ok"
    by (simp add: all_ok_def)
  have ov: "length (accumulated started_device pkt) \<le> BUFFER_SIZE"
    using assms by (simp add: acc example_jpeg_length BUFFER_SIZE_def)
  have len: "HEADER_SIZE < length pkt"
    by (simp add: pkt_def example_header_magic(2) example_jpeg_length)
  have vm: "valid_magic pkt" by (simp add: pkt_def header_facts)
  show ?thesis
    using process_data_by_first_accepted_end [OF started_device_ok vm len al ov]
    by (simp add: acc example_jpeg_then_tail example_jpeg_length flip: pkt_def)
qed

lemma long_tail_facts: "has_soi long_tail" "length long_tail = 61502"
  by (simp_all add: long_tail_def has_soi_def)

lemma slot_succ:
  "((r + j) mod MAX_FRAMES + 1) mod MAX_FRAMES = (r + (j + 1)) mod MAX_FRAMES"
  by (simp add: mod_simps)

lemma slot_shift:
  "((r + 1) mod MAX_FRAMES + j) mod MAX_FRAMES = (r + (j + 1)) mod MAX_FRAMES"
  by (simp add: mod_simps ac_simps)

lemma slot_back:
  assumes "r < MAX_FRAMES" "j < MAX_FRAMES"
  shows "((r + j) mod MAX_FRAMES + (MAX_FRAMES - r)) mod MAX_FRAMES = j"
proof -
  have "((r + j) mod MAX_FRAMES + (MAX_FRAMES - r)) mod MAX_FRAMES
      = (r + j + (MAX_FRAMES - r)) mod MAX_FRAMES"
    by (simp only: mod_add_left_eq)
  also have "r + j + (MAX_FRAMES - r) = j + MAX_FRAMES" using assms(1) by simp
  also have "(j + MAX_FRAMES) mod MAX_FRAMES = j" using assms(2) by simp
  finally show ?thesis .
qed

lemma slot_inj:
  assumes "r < MAX_FRAMES" "j < MAX_FRAMES" "k < MAX_FRAMES"
  shows "((r + j) mod MAX_FRAMES = (r + k) mod MAX_FRAMES) = (j = k)"
proof
  assume "(r + j) mod MAX_FRAMES = (r + k) mod MAX_FRAMES"
  then have "((r + j) mod MAX_FRAMES + (MAX_FRAMES - r)) mod MAX_FRAMES
      = ((r + k) mod MAX_FRAMES + (MAX_FRAMES - r)) mod MAX_FRAMES"
    by simp
  then show "j = k" using assms by (simp only: slot_back)
qed simp

lemma slot_offset:
  assumes "r < MAX_FRAMES" "i < MAX_FRAMES"
  shows "\<exists>j < MAX_FRAMES. i = (r + j) mod MAX_FRAMES"
proof -
  have 1: "(i + MAX_FRAMES - r) mod MAX_FRAMES < MAX_FRAMES" by (simp add: MAX_FRAMES_def)
  have "(r + (i + MAX_FRAMES - r) mod MAX_FRAMES) mod MAX_FRAMES
      = (r + (i + MAX_FRAMES - r)) mod MAX_FRAMES"
    by (simp only: mod_add_right_eq)
  also have "r + (i + MAX_FRAMES - r) = i + MAX_FRAMES" using assms(1) by simp
  also have "(i + MAX_FRAMES) mod MAX_FRAMES = i" using assms(2) by simp
  finally have "i = (r + (i + MAX_FRAMES - r) mod MAX_FRAMES) mod MAX_FRAMES" by simp
  then show ?thesis using 1 by blast
qed

lemma lastn_short: "length xs \<le> n \<Longrightarrow> lastn n xs = xs"
  by (simp add: lastn_def)

lemma lastn_lastn_append: "lastn n (lastn n xs @ ys) = lastn n (xs @ ys)"
  by (cases "length xs \<le> n") (auto simp: lastn_def add.commute)

lemma length_lastn: "length (lastn n xs) = min n (length xs)"
  by (auto simp: lastn_def)

lemma ring_holds_store:
  assumes rh: "ring_holds dev q" and f: "frame_ok f'" "\<not> ready f'"
  shows "ring_holds (store_frame dev (write_frame dev) f') q"
proof -
  define r where "r = read_frame dev"
  define m where "m = length q"
  have ok: "dev_ok dev" and m: "m < MAX_FRAMES" and w: "write_frame dev = (r + m) mod MAX_FRAMES"
    and rd: "\<forall>j < MAX_FRAMES. ready (frames dev ! ((r + j) mod MAX_FRAMES)) \<longleftrightarrow> j < m"
    and ct: "\<forall>j < m. content (frames dev ! ((r + j) mod MAX_FRAMES)) = q ! j"
    using rh by (simp_all add: ring_holds_def r_def m_def)
  have r: "r < MAX_FRAMES" and len: "length (frames dev) = MAX_FRAMES"
    using ok by (simp_all add: dev_ok_def r_def)
  have nth: "\<And>j. j < MAX_FRAMES \<Longrightarrow>
      (frames dev)[(r + m) mod MAX_FRAMES := f'] ! ((r + j) mod MAX_FRAMES)
        = (if j = m then f' else frames dev ! ((r + j) mod MAX_FRAMES))"
    using slot_inj [OF r m] len by (auto simp: nth_update_if succ_mod_less MAX_FRAMES_def)
  have "\<forall>j < MAX_FRAMES.
      ready ((frames dev)[(r + m) mod MAX_FRAMES := f'] ! ((r + j) mod MAX_FRAMES)) \<longleftrightarrow> j < m"
    using rd f(2) by (simp add: nth)
  moreover have "\<forall>j < m.
      content ((frames dev)[(r + m) mod MAX_FRAMES := f'] ! ((r + j) mod MAX_FRAMES)) = q ! j"
    using ct m by (simp add: nth)
  ultimately show ?thesis
    using dev_ok_store [OF ok f(1)] m w
    by (simp add: ring_holds_def store_frame_fields flip: r_def m_def)
qed

lemma ring_holds_complete:
  assumes rh: "ring_holds dev q" and ce: "completion_effect env dev F lo dev'"
  shows "ring_holds dev' (lastn (MAX_FRAMES - 1) (q @ [F]))"
    and "frames_dropped dev' = frames_dropped dev + of_nat (length (q @ [F]) - (MAX_FRAMES - 1))"
proof -
  define r where "r = read_frame dev"
  define m where "m = length q"
  define slot where "slot j = (r + j) mod MAX_FRAMES" for j
  have ok: "dev_ok dev" and m: "m < MAX_FRAMES" and w: "write_frame dev = slot m"
    and rd: "\<forall>j < MAX_FRAMES. ready (frames dev ! slot j) \<longleftrightarrow> j < m"
    and ct: "\<forall>j < m. content (frames dev ! slot j) = q ! j"
    using rh by (simp_all add: ring_holds_def r_def m_def slot_def)
  have r: "r < MAX_FRAMES" using ok by (simp add: dev_ok_def r_def)
  have inj: "\<And>j k. j < MAX_FRAMES \<Longrightarrow> k < MAX_FRAMES \<Longrightarrow> (slot j = slot k) = (j = k)"
    unfolding slot_def using slot_inj [OF r] by blast
  have s0: "slot 0 = r" using r by (simp add: slot_def)
  have nw: "(slot m + 1) mod MAX_FRAMES = slot (m + 1)"
    by (simp only: slot_def slot_succ)
  have ok': "dev_ok dev'" and w': "write_frame dev' = slot (m + 1)"
    and dr: "frames_dropped dev'
          = (if slot (m + 1) = r \<and> ready (frames dev ! r)
             then frames_dropped dev + 1 else frames_dropped dev)"
    and r': "read_frame dev'
          = (if slot (m + 1) = r \<and> ready (frames dev ! r)
             then (r + 1) mod MAX_FRAMES else r)"
    and fw: "ready (frames dev' ! slot m)" "content (frames dev' ! slot m) = F"
    and fn: "\<not> ready (frames dev' ! slot (m + 1))"
    and fo: "\<forall>i. i \<noteq> slot m \<and> i \<noteq> slot (m + 1) \<longrightarrow> frames dev' ! i = frames dev ! i"
    using ce unfolding completion_effect_def w nw r_def [symmetric] by blast+
  have both: "ring_holds dev' (lastn (MAX_FRAMES - 1) (q @ [F]))
    \<and> frames_dropped dev' = frames_dropped dev + of_nat (length (q @ [F]) - (MAX_FRAMES - 1))"
  proof (cases "m + 1 < MAX_FRAMES")
    case True
    have nr: "slot (m + 1) \<noteq> r" using inj [OF True, of 0] s0 by (simp add: MAX_FRAMES_def)
    have q': "lastn (MAX_FRAMES - 1) (q @ [F]) = q @ [F]"
      using True by (simp add: lastn_short m_def)
    have rd': "\<forall>j < MAX_FRAMES. ready (frames dev' ! slot j) \<longleftrightarrow> j < m + 1"
    proof (intro allI impI)
      fix j assume j: "j < MAX_FRAMES"
      consider "j = m" | "j = m + 1" | "j \<noteq> m" "j \<noteq> m + 1" by blast
      then show "ready (frames dev' ! slot j) \<longleftrightarrow> j < m + 1"
      proof cases
        case 1 then show ?thesis using fw by simp
      next
        case 2 then show ?thesis using fn by simp
      next
        case 3
        then have "slot j \<noteq> slot m" "slot j \<noteq> slot (m + 1)"
          using inj [OF j m] inj [OF j True] by simp_all
        then have "frames dev' ! slot j = frames dev ! slot j" using fo by simp
        then show ?thesis using rd j 3 by auto
      qed
    qed
    have ct': "\<forall>j < m + 1. content (frames dev' ! slot j) = (q @ [F]) ! j"
    proof (intro allI impI)
      fix j assume j: "j < m + 1"
      show "content (frames dev' ! slot j) = (q @ [F]) ! j"
      proof (cases "j = m")
        case True then show ?thesis using fw by (simp add: m_def)
      next
        case False
        then have jm: "j < m" using j by simp
        then have jl: "j < MAX_FRAMES" using m by simp
        have "slot j \<noteq> slot m" "slot j \<noteq> slot (m + 1)"
          using inj [OF jl m] inj [OF jl True] jm by simp_all
        then have "frames dev' ! slot j = frames dev ! slot j" using fo by simp
        then show ?thesis using ct jm by (simp add: nth_append m_def)
      qed
    qed
    have A: "ring_holds dev' (lastn (MAX_FRAMES - 1) (q @ [F]))"
      unfolding q' ring_holds_def
      using ok' True w' r' nr rd' ct'
      by (simp add: slot_def flip: m_def)
    have B: "frames_dropped dev' = frames_dropped dev + of_nat (length (q @ [F]) - (MAX_FRAMES - 1))"
      using dr nr True by (simp flip: m_def)
    show ?thesis using A B by (rule conjI)
  next
    case False
    then have m11: "m = MAX_FRAMES - 1" "m + 1 = MAX_FRAMES" using m by simp_all
    have nr: "slot (m + 1) = r" using r by (simp add: m11 slot_def)
    have "0 < MAX_FRAMES" "0 < m" using m11 by (simp_all add: MAX_FRAMES_def)
    then have "ready (frames dev ! slot 0)" using rd by blast
    then have rr: "ready (frames dev ! r)" by (simp only: s0)
    have r'': "read_frame dev' = (r + 1) mod MAX_FRAMES" using r' nr rr by simp
    have sl: "\<And>j. (read_frame dev' + j) mod MAX_FRAMES = slot (j + 1)"
      by (simp only: r'' slot_shift slot_def)
    have qne: "q \<noteq> []" using m11 by (auto simp: m_def MAX_FRAMES_def)
    have q': "lastn (MAX_FRAMES - 1) (q @ [F]) = tl q @ [F]" "length (tl q @ [F]) = m"
    proof -
      obtain x xs where q: "q = x # xs" using qne by (cases q) auto
      show "lastn (MAX_FRAMES - 1) (q @ [F]) = tl q @ [F]"
        using m11 by (simp add: lastn_def m_def q)
      show "length (tl q @ [F]) = m" by (simp add: m_def q)
    qed
    have rd': "\<forall>j < MAX_FRAMES. ready (frames dev' ! slot (j + 1)) \<longleftrightarrow> j < m"
    proof (intro allI impI)
      fix j assume j: "j < MAX_FRAMES"
      consider "j = m" | "j + 1 = m" | "j + 1 < m" using j m11 by linarith
      then show "ready (frames dev' ! slot (j + 1)) \<longleftrightarrow> j < m"
      proof cases
        case 1 then show ?thesis using fn by simp
      next
        case 2 then show ?thesis using fw by auto
      next
        case 3
        then have j1: "j + 1 < MAX_FRAMES" "0 < j + 1" using m by simp_all
        have "slot (j + 1) \<noteq> slot m" using inj [OF j1(1) m] 3 by simp
        moreover have "slot (j + 1) \<noteq> slot (m + 1)"
          using inj [OF j1(1), of 0] s0 nr by (simp add: MAX_FRAMES_def)
        ultimately have "frames dev' ! slot (j + 1) = frames dev ! slot (j + 1)" using fo by simp
        then show ?thesis using rd j1 3 by auto
      qed
    qed
    have ct': "\<forall>j < m. content (frames dev' ! slot (j + 1)) = (tl q @ [F]) ! j"
    proof (intro allI impI)
      fix j assume j: "j < m"
      show "content (frames dev' ! slot (j + 1)) = (tl q @ [F]) ! j"
      proof (cases "j + 1 = m")
        case True
        then have "length (tl q) = j" by (simp add: m_def)
        then show ?thesis using fw True by (simp add: nth_append)
      next
        case False
        then have 3: "j + 1 < m" using j by simp
        then have j1: "j + 1 < MAX_FRAMES" using m by simp
        have "slot (j + 1) \<noteq> slot m" using inj [OF j1 m] 3 by simp
        moreover have "slot (j + 1) \<noteq> slot (m + 1)"
          using inj [OF j1, of 0] s0 nr by (simp add: MAX_FRAMES_def)
        ultimately have "frames dev' ! slot (j + 1) = frames dev ! slot (j + 1)" using fo by simp
        moreover have "(tl q @ [F]) ! j = q ! (j + 1)"
        proof -
          have "j < length (tl q)" using 3 by (simp add: m_def)
          then show ?thesis by (simp add: nth_append nth_tl)
        qed
        ultimately show ?thesis using ct 3 by simp
      qed
    qed
    have wr: "write_frame dev' = (read_frame dev' + m) mod MAX_FRAMES"
      by (simp only: sl w')
    have A: "ring_holds dev' (lastn (MAX_FRAMES - 1) (q @ [F]))"
      unfolding q'(1) ring_holds_def q'(2) sl
      using ok' m w' rd' ct' by simp
    have B: "frames_dropped dev' = frames_dropped dev + of_nat (length (q @ [F]) - (MAX_FRAMES - 1))"
      using dr nr rr m11 by (simp flip: m_def)
    show ?thesis using A B by (rule conjI)
  qed
  show "ring_holds dev' (lastn (MAX_FRAMES - 1) (q @ [F]))"
    and "frames_dropped dev' = frames_dropped dev + of_nat (length (q @ [F]) - (MAX_FRAMES - 1))"
    using both by simp_all
qed

lemma ring_holds_step:
  assumes rh: "ring_holds dev q" and pl: "length pkt \<le> BUFFER_SIZE"
  shows "\<exists>dev'. process_data env dev pkt = Some dev'
           \<and> streaming dev' = streaming dev
           \<and> ring_holds dev' (lastn (MAX_FRAMES - 1) (q @ completed_by dev dev'))
           \<and> frames_captured dev' = frames_captured dev + of_nat (length (completed_by dev dev'))
           \<and> frames_dropped dev'
                = frames_dropped dev + of_nat (length (q @ completed_by dev dev') - (MAX_FRAMES - 1))"
proof -
  have ok: "dev_ok dev" and m: "length q < MAX_FRAMES"
    and w: "write_frame dev = (read_frame dev + length q) mod MAX_FRAMES"
    and rd: "\<forall>j < MAX_FRAMES. ready (frames dev ! ((read_frame dev + j) mod MAX_FRAMES)) \<longleftrightarrow> j < length q"
    using rh by (simp_all add: ring_holds_def)
  have nr: "\<not> ready (frames dev ! write_frame dev)"
    using rd m unfolding w by blast
  have q: "lastn (MAX_FRAMES - 1) q = q" "length q - (MAX_FRAMES - 1) = 0"
    using m by (simp_all add: lastn_short)
  let ?G = ?thesis
  have keep: "\<And>f'. frame_ok f' \<Longrightarrow> \<not> ready f' \<Longrightarrow>
      process_data env dev pkt = Some (store_frame dev (write_frame dev) f') \<Longrightarrow> ?G"
  proof -
    fix f' assume f: "frame_ok f'" "\<not> ready f'"
      and pd: "process_data env dev pkt = Some (store_frame dev (write_frame dev) f')"
    have "completed_by dev (store_frame dev (write_frame dev) f') = []"
      by (simp add: completed_by_def store_frame_fields)
    then show ?G
      using pd ring_holds_store [OF rh f] q
      by (simp add: store_frame_fields)
  qed
  from ok show ?thesis
  proof (cases rule: process_data_cases [where pkt = pkt and env = env])
    case skip
    have "completed_by dev dev = []" by (simp add: completed_by_def)
    then show ?thesis using skip(2) rh q by simp
  next
    case (short f1)
    then show ?thesis using keep [of f1] nr by simp
  next
    case long
    then show ?thesis using pl by simp
  next
    case (overflow f')
    then show ?thesis using keep [of f'] by simp
  next
    case (append f')
    then show ?thesis using keep [of f'] nr by simp
  next
    case (complete c dev')
    define F where "F = take c (accumulated dev pkt)"
    have cb: "completed_by dev dev' = [F]"
      using complete(7) by (simp add: completed_by_def completion_effect_def F_def)
    have ce: "completion_effect env dev F (drop c (accumulated dev pkt)) dev'"
      using complete(7) by (simp only: F_def)
    have st: "streaming dev' = streaming dev" "frames_captured dev' = frames_captured dev + 1"
      using ce by (simp_all add: completion_effect_def)
    show ?thesis
      using ring_holds_complete [OF rh ce]
      by (intro exI [of _ dev']) (simp add: cb complete(6) st)
  qed
qed

lemma dropped_sum:
  fixes a b n :: nat
  shows "(a - n) + ((min n a + b) - n) = (a + b) - n"
  by (cases "a \<le> n") (simp_all add: min_def)

lemma ring_holds_feed:
  assumes "ring_holds dev q" and "\<forall>ep \<in> set pkts. length (snd ep) \<le> BUFFER_SIZE"
  shows "\<exists>dev'. feed dev pkts = Some dev'
           \<and> streaming dev' = streaming dev
           \<and> ring_holds dev' (lastn (MAX_FRAMES - 1) (q @ completed_frames dev pkts))
           \<and> frames_captured dev' = frames_captured dev + of_nat (length (completed_frames dev pkts))
           \<and> frames_dropped dev'
                = frames_dropped dev
                  + of_nat (length (q @ completed_frames dev pkts) - (MAX_FRAMES - 1))"
  using assms
proof (induction pkts arbitrary: dev q)
  case Nil
  then have "length q < MAX_FRAMES" by (simp add: ring_holds_def)
  then show ?case using Nil by (simp add: lastn_short)
next
  case (Cons ep pkts)
  obtain dev1 where d1: "process_data (fst ep) dev (snd ep) = Some dev1"
    "streaming dev1 = streaming dev"
    "ring_holds dev1 (lastn (MAX_FRAMES - 1) (q @ completed_by dev dev1))"
    "frames_captured dev1 = frames_captured dev + of_nat (length (completed_by dev dev1))"
    "frames_dropped dev1
       = frames_dropped dev + of_nat (length (q @ completed_by dev dev1) - (MAX_FRAMES - 1))"
    using ring_holds_step [OF Cons.prems(1), of "snd ep" "fst ep"] Cons.prems(2) by auto
  define l1 where "l1 = completed_by dev dev1"
  define l2 where "l2 = completed_frames dev1 pkts"
  define q1 where "q1 = lastn (MAX_FRAMES - 1) (q @ l1)"
  obtain dev' where d': "feed dev1 pkts = Some dev'"
    "streaming dev' = streaming dev1"
    "ring_holds dev' (lastn (MAX_FRAMES - 1) (q1 @ l2))"
    "frames_captured dev' = frames_captured dev1 + of_nat (length l2)"
    "frames_dropped dev' = frames_dropped dev1 + of_nat (length (q1 @ l2) - (MAX_FRAMES - 1))"
    using Cons.IH [OF d1(3)] Cons.prems(2) unfolding l1_def l2_def q1_def by auto
  have cf: "completed_frames dev (ep # pkts) = l1 @ l2"
    using d1(1) by (simp add: l1_def l2_def)
  have 1: "lastn (MAX_FRAMES - 1) (q1 @ l2) = lastn (MAX_FRAMES - 1) (q @ l1 @ l2)"
    unfolding q1_def by (simp add: lastn_lastn_append)
  have "length q1 = min (MAX_FRAMES - 1) (length (q @ l1))"
    by (simp add: q1_def length_lastn)
  then have 2: "(length (q @ l1) - (MAX_FRAMES - 1)) + (length (q1 @ l2) - (MAX_FRAMES - 1))
      = length (q @ l1 @ l2) - (MAX_FRAMES - 1)"
    using dropped_sum [of "length (q @ l1)" "MAX_FRAMES - 1" "length l2"] by (simp add: add.assoc)
  have 3: "frames_dropped dev'
      = frames_dropped dev + of_nat (length (q @ l1 @ l2) - (MAX_FRAMES - 1))"
    unfolding d'(5) d1(5) l1_def [symmetric] 2 [symmetric] by simp
  have 4: "frames_captured dev' = frames_captured dev + of_nat (length (l1 @ l2))"
    unfolding d'(4) d1(4) l1_def [symmetric] by simp
  show ?case
    unfolding cf
    using d1(1) d'(1) d'(2) d1(2) d'(3) [unfolded 1] 3 4
    by simp
qed

lemma ring_holds_empty:
  assumes "dev_ok dev" "list_all (\<lambda>f. \<not> ready f) (frames dev)" "read_frame dev = write_frame dev"
  shows "ring_holds dev []"
proof -
  have r: "read_frame dev < MAX_FRAMES" "length (frames dev) = MAX_FRAMES"
    using assms(1) by (simp_all add: dev_ok_def)
  have "\<forall>j < MAX_FRAMES. \<not> ready (frames dev ! ((read_frame dev + j) mod MAX_FRAMES))"
    using assms(2) r(2) by (simp add: list_all_length MAX_FRAMES_def)
  then show ?thesis using assms r by (simp add: ring_holds_def MAX_FRAMES_def)
qed

lemma ring_holds_read:
  assumes rh: "ring_holds dev q" and ne: "q \<noteq> []" and st: "streaming dev"
  shows "camera_read_frame dev buffer_size timeout_ms wait_failure =
     (if buffer_size < length (hd q)
      then Returns (CAMERA_ERROR_BUFFER_SMALL, [],
             Some (set_error (''Buffer too small: need '' @ fmt_u (length (hd q))
                     @ '' bytes, have '' @ fmt_u buffer_size)), dev)
      else Returns (CAMERA_SUCCESS, hd q, None,
             (store_frame dev (read_frame dev)
                ((frames dev ! read_frame dev)\<lparr>ready := False, size_f := 0\<rparr>))
               \<lparr>read_frame := (read_frame dev + 1) mod MAX_FRAMES\<rparr>))"
proof -
  have ok: "dev_ok dev" using rh by (simp add: ring_holds_def)
  have r: "read_frame dev < MAX_FRAMES" using ok by (simp add: dev_ok_def)
  have 0: "0 < length q" "0 < MAX_FRAMES" using ne by (simp_all add: MAX_FRAMES_def)
  have s0: "(read_frame dev + 0) mod MAX_FRAMES = read_frame dev" using r by simp
  have "ready (frames dev ! ((read_frame dev + 0) mod MAX_FRAMES))"
    "content (frames dev ! ((read_frame dev + 0) mod MAX_FRAMES)) = q ! 0"
    using rh 0 unfolding ring_holds_def by blast+
  then have rd: "ready (frames dev ! read_frame dev)"
    and ct: "content (frames dev ! read_frame dev) = hd q"
    using ne unfolding s0 by (simp_all add: hd_conv_nth)
  have "size_f (frames dev ! read_frame dev) = length (hd q)"
    using frame_ok_content_length [OF dev_ok_frame [OF ok r]] ct by simp
  then show ?thesis
    using read_loop_ready [OF ok rd, of buffer_size timeout_ms wait_failure] st ct
    by (simp add: camera_read_frame_def)
qed

lemma numbered_jpeg_facts:
  "length (numbered_jpeg k) = 1000" "has_soi (numbered_jpeg k)"
  "first_accepted_end (numbered_jpeg k) = Some 1000"
proof -
  show l: "length (numbered_jpeg k) = 1000" by (simp add: numbered_jpeg_def)
  show "has_soi (numbered_jpeg k)" by (simp add: has_soi_def numbered_jpeg_def)
  have "first_eoi_from (numbered_jpeg k) 999 = Some 999"
    unfolding first_eoi_from_Some
    by (simp add: l) (simp add: eoi_at_def numbered_jpeg_def nth_append)
  then show "first_accepted_end (numbered_jpeg k) = Some 1000"
    by (simp add: first_accepted_end_def MIN_JPEG_SIZE_def) (simp add: numbered_jpeg_def)
qed

lemma numbered_step:
  assumes ok: "dev_ok dev" and nr: "\<not> ready (frames dev ! write_frame dev)"
  shows "\<exists>dev'. process_data all_ok dev (example_header @ numbered_jpeg k) = Some dev'
           \<and> completion_effect all_ok dev (numbered_jpeg k) [] dev'"
proof -
  define pkt where "pkt = example_header @ numbered_jpeg k"
  have acc: "accumulated dev pkt = numbered_jpeg k"
    using nr by (simp add: accumulated_def pkt_def example_header_magic(2) carried_def numbered_jpeg_facts)
  have al: "data (frames dev ! write_frame dev) \<noteq> None \<or> malloc_frame all_ok"
    by (simp add: all_ok_def)
  have ov: "length (accumulated dev pkt) \<le> BUFFER_SIZE"
    by (simp add: acc numbered_jpeg_facts BUFFER_SIZE_def)
  have len: "HEADER_SIZE < length pkt"
    by (simp add: pkt_def example_header_magic(2) numbered_jpeg_facts)
  have vm: "valid_magic pkt" by (simp add: pkt_def header_facts)
  show ?thesis
    using process_data_by_first_accepted_end [OF ok vm len al ov]
    by (simp add: acc numbered_jpeg_facts flip: pkt_def)
qed

lemma numbered_packets_short:
  "\<forall>ep \<in> set (numbered_packets ks). length (snd ep) \<le> BUFFER_SIZE"
  by (auto simp: numbered_packets_def example_header_magic(2) numbered_jpeg_facts BUFFER_SIZE_def HEADER_SIZE_def)

lemma numbered_completed:
  assumes "ring_holds dev q"
  shows "completed_frames dev (numbered_packets ks) = map numbered_jpeg ks"
  using assms
proof (induction ks arbitrary: dev q)
  case Nil
  then show ?case by (simp add: numbered_packets_def)
next
  case (Cons k ks)
  have ok: "dev_ok dev" and m: "length q < MAX_FRAMES"
    and w: "write_frame dev = (read_frame dev + length q) mod MAX_FRAMES"
    and rd: "\<forall>j < MAX_FRAMES. ready (frames dev ! ((read_frame dev + j) mod MAX_FRAMES)) \<longleftrightarrow> j < length q"
    using Cons.prems by (simp_all add: ring_holds_def)
  have nr: "\<not> ready (frames dev ! write_frame dev)"
    using rd m unfolding w by blast
  obtain dev' where d: "process_data all_ok dev (example_header @ numbered_jpeg k) = Some dev'"
    "completion_effect all_ok dev (numbered_jpeg k) [] dev'"
    using numbered_step [OF ok nr] by blast
  have cb: "completed_by dev dev' = [numbered_jpeg k]"
    using d(2) by (simp add: completed_by_def completion_effect_def)
  have "ring_holds dev' (lastn (MAX_FRAMES - 1) (q @ [numbered_jpeg k]))"
    using ring_holds_complete [OF Cons.prems d(2)] by simp
  then have "completed_frames dev' (numbered_packets ks) = map numbered_jpeg ks"
    by (rule Cons.IH)
  then show ?case using d(1) cb by (simp add: numbered_packets_def)
qed

lemma started_ring: "ring_holds started_device []"
  by (rule ring_holds_empty [OF started_device_ok])
     (simp_all add: started_device_fields list_all_length empty_frame_def)

lemma feed_then_read:
  assumes ok: "dev_ok dev" and st: "streaming dev"
    and em: "list_all (\<lambda>f. \<not> ready f) (frames dev)" and rw: "read_frame dev = write_frame dev"
    and pk: "\<forall>ep \<in> set pkts. length (snd ep) \<le> BUFFER_SIZE"
  shows "\<exists>dev'. feed dev pkts = Some dev'
     \<and> frames_captured dev' = frames_captured dev + of_nat (length (completed_frames dev pkts))
     \<and> frames_dropped dev'
          = frames_dropped dev + of_nat (length (completed_frames dev pkts) - (MAX_FRAMES - 1))
     \<and> (completed_frames dev pkts \<noteq> [] \<longrightarrow>
          (\<forall>buffer_size timeout_ms wait_failure.
             read_result (camera_read_frame dev' buffer_size timeout_ms wait_failure)
             = (if buffer_size
                     < length (completed_frames dev pkts
                                 ! (length (completed_frames dev pkts) - (MAX_FRAMES - 1)))
                then Some (CAMERA_ERROR_BUFFER_SMALL, [])
                else Some (CAMERA_SUCCESS,
                       completed_frames dev pkts
                         ! (length (completed_frames dev pkts) - (MAX_FRAMES - 1))))))"
proof -
  define log where "log = completed_frames dev pkts"
  define q where "q = lastn (MAX_FRAMES - 1) log"
  obtain dev' where d: "feed dev pkts = Some dev'" "streaming dev' = streaming dev"
    "ring_holds dev' q"
    "frames_captured dev' = frames_captured dev + of_nat (length log)"
    "frames_dropped dev' = frames_dropped dev + of_nat (length log - (MAX_FRAMES - 1))"
    using ring_holds_feed [OF ring_holds_empty [OF ok em rw] pk]
    by (auto simp: log_def q_def)
  have rd: "log \<noteq> [] \<longrightarrow>
          (\<forall>buffer_size timeout_ms wait_failure.
             read_result (camera_read_frame dev' buffer_size timeout_ms wait_failure)
             = (if buffer_size < length (log ! (length log - (MAX_FRAMES - 1)))
                then Some (CAMERA_ERROR_BUFFER_SMALL, [])
                else Some (CAMERA_SUCCESS, log ! (length log - (MAX_FRAMES - 1)))))"
  proof (intro impI allI)
    fix buffer_size timeout_ms wait_failure
    assume ne: "log \<noteq> []"
    have lt: "length log - (MAX_FRAMES - 1) < length log"
      using ne by (cases log) (simp_all add: MAX_FRAMES_def)
    then have qn: "q \<noteq> []" by (simp add: q_def lastn_def)
    from lt have hq: "hd q = log ! (length log - (MAX_FRAMES - 1))"
      by (simp add: q_def lastn_def hd_drop_conv_nth MAX_FRAMES_def)
    show "read_result (camera_read_frame dev' buffer_size timeout_ms wait_failure)
             = (if buffer_size < length (log ! (length log - (MAX_FRAMES - 1)))
                then Some (CAMERA_ERROR_BUFFER_SMALL, [])
                else Some (CAMERA_SUCCESS, log ! (length log - (MAX_FRAMES - 1))))"
      using st d(2) hq
      by (simp add: ring_holds_read [OF d(3) qn] read_result_def)
  qed
  show ?thesis
    unfolding log_def [symmetric]
    by (intro exI [of _ dev'] conjI) (rule d(1) d(4) d(5) rd)+
qed


lemma numbered_run:
  "\<exists>dev'. feed started_device (numbered_packets [1 ..< 14]) = Some dev'
     \<and> frames_captured dev' = 13 \<and> frames_dropped dev' = 2
     \<and> read_result (camera_read_frame dev' BUFFER_SIZE 0 None)
          = Some (CAMERA_SUCCESS, numbered_jpeg 3)"
proof -
  have em: "list_all (\<lambda>f. \<not> ready f) (frames started_device)"
    by (simp add: started_device_fields list_all_length empty_frame_def)
  have rw: "read_frame started_device = write_frame started_device"
    and st: "streaming started_device"
    by (simp_all add: started_device_fields)
  have cf: "completed_frames started_device (numbered_packets [1 ..< 14]) = map numbered_jpeg [1 ..< 14]"
    by (rule numbered_completed [OF started_ring])
  show ?thesis
    using feed_then_read [OF started_device_ok st em rw numbered_packets_short, of "[1 ..< 14]"]
    unfolding cf
    by (auto simp: started_device_fields MAX_FRAMES_def numbered_jpeg_facts BUFFER_SIZE_def
        numeral_3_eq_3)
qed




















text \<open>
  With no limit on the wait (\<^verbatim>\<open>timeout_ms\<close> 0 or \<^verbatim>\<open>0xFFFFFFFF\<close>) a read from an
  empty ring never returns.
\<close>

lemma empty_ring_read_blocks:
  assumes er: "empty_ring_with dev A" and st: "streaming dev"
    and t: "timeout_ms = 0 \<or> timeout_ms = 0xFFFFFFFF"
  shows "camera_read_frame dev buffer_size timeout_ms None = Blocks"
proof -
  have r: "read_frame dev < length (frames dev)"
    and em: "list_all (\<lambda>f. \<not> ready f) (frames dev)"
    using er by (simp_all add: empty_ring_with_def dev_ok_def)
  have nr: "\<not> ready (frames dev ! read_frame dev)" using em r by (simp add: list_all_length)
  have "wait_timeout timeout_ms = INFINITE"
    using t by (auto simp: wait_timeout_def INFINITE_def)
  then show ?thesis
    using st by (simp add: camera_read_frame_def read_loop_not_ready [OF r nr])
qed

text \<open>
  What it means that the scan accepts all of \<open>J\<close> and nothing shorter: \<open>J\<close> begins
  with \<^verbatim>\<open>FF D8\<close>, has at least \<^verbatim>\<open>MIN_JPEG_SIZE\<close> bytes, ends with \<^verbatim>\<open>FF D9\<close>, and no
  earlier \<^verbatim>\<open>FF D9\<close> has its second byte at offset \<open>MIN_JPEG_SIZE - 1\<close> or later.
\<close>

lemma accepted_as_a_whole_iff:
  "first_accepted_end J = Some (length J) \<longleftrightarrow>
     J ! 0 = 0xFF \<and> J ! 1 = 0xD8 \<and> MIN_JPEG_SIZE \<le> length J \<and> eoi_at J (length J - 1)
     \<and> (\<forall>i. MIN_JPEG_SIZE - 1 \<le> i \<and> i < length J - 1 \<longrightarrow> \<not> eoi_at J i)"
proof (cases "J ! 0 = 0xFF \<and> J ! 1 = 0xD8")
  case False
  then show ?thesis by (auto simp: first_accepted_end_def)
next
  case True
  have "first_accepted_end J = Some (length J)
          \<longleftrightarrow> (\<exists>i. first_eoi_from J (MIN_JPEG_SIZE - 1) = Some i \<and> Suc i = length J)"
    using True by (auto simp: first_accepted_end_def)
  also have "\<dots> \<longleftrightarrow> MIN_JPEG_SIZE \<le> length J \<and> eoi_at J (length J - 1)
     \<and> (\<forall>i. MIN_JPEG_SIZE - 1 \<le> i \<and> i < length J - 1 \<longrightarrow> \<not> eoi_at J i)"
  proof
    assume "\<exists>i. first_eoi_from J (MIN_JPEG_SIZE - 1) = Some i \<and> Suc i = length J"
    then obtain i where i: "first_eoi_from J (MIN_JPEG_SIZE - 1) = Some i" "Suc i = length J"
      by blast
    have i': "i = length J - 1" using i(2) by simp
    show "MIN_JPEG_SIZE \<le> length J \<and> eoi_at J (length J - 1)
     \<and> (\<forall>i. MIN_JPEG_SIZE - 1 \<le> i \<and> i < length J - 1 \<longrightarrow> \<not> eoi_at J i)"
      using i(1) i(2) unfolding first_eoi_from_Some i' by (auto simp: MIN_JPEG_SIZE_def)
  next
    assume a: "MIN_JPEG_SIZE \<le> length J \<and> eoi_at J (length J - 1)
     \<and> (\<forall>i. MIN_JPEG_SIZE - 1 \<le> i \<and> i < length J - 1 \<longrightarrow> \<not> eoi_at J i)"
    then have "first_eoi_from J (MIN_JPEG_SIZE - 1) = Some (length J - 1)"
      unfolding first_eoi_from_Some by (auto simp: MIN_JPEG_SIZE_def)
    moreover have "MIN_JPEG_SIZE \<le> length J" using a by blast
    then have "Suc (length J - 1) = length J" by (simp add: MIN_JPEG_SIZE_def)
    ultimately show "\<exists>i. first_eoi_from J (MIN_JPEG_SIZE - 1) = Some i \<and> Suc i = length J"
      by blast
  qed
  finally show ?thesis using True by simp
qed

text \<open>
  The last condition starts at offset \<open>MIN_JPEG_SIZE - 1\<close>: a JPEG whose first 1000
  bytes already end with \<^verbatim>\<open>FF D9\<close> is cut there, and the bytes behind are dropped.
\<close>

lemma early_end_is_cut:
  "\<exists>d. feed started_device
          [(all_ok, example_header @ example_jpeg @ replicate 10 0 @ [0xFF, 0xD9])] = Some d
     \<and> read_result (camera_read_frame d BUFFER_SIZE 1000 None) = Some (CAMERA_SUCCESS, example_jpeg)"
proof -
  define t :: "byte list" where "t = replicate 10 0 @ [0xFF, 0xD9]"
  have "length t \<le> 64000" by (simp add: t_def)
  then obtain d where d: "process_data all_ok started_device (example_header @ example_jpeg @ t) = Some d"
    "completion_effect all_ok started_device example_jpeg t d"
    using started_jpeg_then_tail by blast
  have st: "streaming d" using d(2) by (simp add: completion_effect_def started_device_fields)
  have rh: "ring_holds d [example_jpeg]"
    using ring_holds_complete(1) [OF started_ring d(2)] by (simp add: lastn_def MAX_FRAMES_def)
  have "read_result (camera_read_frame d BUFFER_SIZE 1000 None) = Some (CAMERA_SUCCESS, example_jpeg)"
    using st by (simp add: ring_holds_read [OF rh] read_result_def example_jpeg_length BUFFER_SIZE_def)
  then show ?thesis using d(1) by (simp add: t_def)
qed

(*CLAIMS*)

section \<open>Verified properties\<close>



text \<open>
  C3. While the session is streaming and the slot at the read index is ready with a
  size above \<^verbatim>\<open>buffer_size\<close>, \<^verbatim>\<open>camera_read_frame\<close> returns
  \<^verbatim>\<open>CAMERA_ERROR_BUFFER_SMALL\<close> and the device is exactly as before (the slot's
  ready flag, size and data, and the read index); a call with a buffer that is large
  enough then returns \<^verbatim>\<open>CAMERA_SUCCESS\<close> with the bytes of that same slot.
\<close>

theorem buffer_too_small_keeps_frame:
  assumes "dev_ok dev" and "streaming dev" and "ready (frames dev ! read_frame dev)"
    and "buffer_size < size_f (frames dev ! read_frame dev)"
    and "size_f (frames dev ! read_frame dev) \<le> buffer_size'"
  shows "(\<exists>msg. camera_read_frame dev buffer_size timeout_ms wait_failure
             = Returns (CAMERA_ERROR_BUFFER_SMALL, [], msg, dev))
       \<and> (\<exists>dev'. camera_read_frame dev buffer_size' timeout_ms' wait_failure'
                = Returns (CAMERA_SUCCESS, content (frames dev ! read_frame dev), None, dev'))"
proof -
  have r: "read_frame dev < length (frames dev)"
    using assms(1) by (simp add: dev_ok_def)
  have fo: "frame_ok (frames dev ! read_frame dev)"
    using assms(1) by (simp add: dev_ok_frame dev_ok_def)
  from fo assms(3) obtain buf where buf: "data (frames dev ! read_frame dev) = Some buf"
    "length buf = BUFFER_SIZE" "size_f (frames dev ! read_frame dev) \<le> BUFFER_SIZE"
    by (auto simp: frame_ok_def split: option.splits)
  have 1: "\<exists>msg. camera_read_frame dev buffer_size timeout_ms wait_failure
             = Returns (CAMERA_ERROR_BUFFER_SMALL, [], msg, dev)"
    using assms r by (simp add: camera_read_frame_def camera_read_frame_loop.simps)
  have 2: "\<exists>dev'. camera_read_frame dev buffer_size' timeout_ms' wait_failure'
                = Returns (CAMERA_SUCCESS, content (frames dev ! read_frame dev), None, dev')"
    using assms r buf by (simp add: camera_read_frame_def camera_read_frame_loop.simps content_def)
  show ?thesis using 1 2 by blast
qed

theorem buffer_too_small_keeps_frame_witness:
  "dev_ok ready_device \<and> streaming ready_device
   \<and> ready (frames ready_device ! read_frame ready_device)
   \<and> 10 < size_f (frames ready_device ! read_frame ready_device)
   \<and> size_f (frames ready_device ! read_frame ready_device) \<le> 1000
   \<and> (\<exists>msg. camera_read_frame ready_device 10 0 None
             = Returns (CAMERA_ERROR_BUFFER_SMALL, [], msg, ready_device))
   \<and> (\<exists>dev'. camera_read_frame ready_device 1000 0 None
             = Returns (CAMERA_SUCCESS, example_jpeg, None, dev'))"
  using buffer_too_small_keeps_frame [of ready_device 10 1000 0 None 0 None]
  by (simp add: ready_device_ok ready_device_slot content_def example_jpeg_length)

text \<open>
  C5. A call of \<^verbatim>\<open>camera_start_streaming\<close> on a session that is not streaming
  succeeds and marks it streaming when nothing fails; when the alternate setting, the
  handshake write or the thread creation fails, the call returns an error status and
  the session is still not streaming; and two calls that fail in different ones of
  these three ways differ in what they surface to the caller, the status together
  with the stored error message.
\<close>

theorem start_failure_stopped_and_distinct:
  assumes "\<not> streaming dev" and "\<not> streaming dev'"
  shows "(start_failure_of env = None \<longrightarrow>
            fst (camera_start_streaming env dev) = CAMERA_SUCCESS
            \<and> streaming (snd (snd (camera_start_streaming env dev))))
       \<and> (start_failure_of env \<noteq> None \<longrightarrow>
            fst (camera_start_streaming env dev) \<noteq> CAMERA_SUCCESS
            \<and> \<not> streaming (snd (snd (camera_start_streaming env dev))))
       \<and> (start_failure_of env \<noteq> None \<and> start_failure_of env' \<noteq> None
            \<and> start_failure_of env \<noteq> start_failure_of env' \<longrightarrow>
            surfaced (camera_start_streaming env dev) \<noteq> surfaced (camera_start_streaming env' dev'))"
proof -
  have ok: "start_failure_of env = None \<longrightarrow>
            fst (camera_start_streaming env dev) = CAMERA_SUCCESS
            \<and> streaming (snd (snd (camera_start_streaming env dev)))"
    using assms(1) by (simp add: start_ok)
  have fail: "start_failure_of env \<noteq> None \<longrightarrow>
            fst (camera_start_streaming env dev) \<noteq> CAMERA_SUCCESS
            \<and> \<not> streaming (snd (snd (camera_start_streaming env dev)))"
    using start_failure_surfaced [OF assms(1)] by blast
  have dist: "start_failure_of env \<noteq> None \<and> start_failure_of env' \<noteq> None
            \<and> start_failure_of env \<noteq> start_failure_of env' \<longrightarrow>
            surfaced (camera_start_streaming env dev) \<noteq> surfaced (camera_start_streaming env' dev')"
  proof (intro impI, elim conjE)
    assume "start_failure_of env \<noteq> None" "start_failure_of env' \<noteq> None"
      and ne: "start_failure_of env \<noteq> start_failure_of env'"
    then obtain k k' where k: "start_failure_of env = Some k" "start_failure_of env' = Some k'"
      by auto
    then have "k \<noteq> k'" using ne by simp
    then show "surfaced (camera_start_streaming env dev) \<noteq> surfaced (camera_start_streaming env' dev')"
      using start_failure_surfaced [OF assms(1) k(1)] start_failure_surfaced [OF assms(2) k(2)]
      by (cases k; cases k')
         (auto simp: CAMERA_ERROR_INIT_FAILED_def CAMERA_ERROR_USB_FAILED_def)
  qed
  show ?thesis using ok fail dist by blast
qed

theorem start_failure_stopped_and_distinct_witness:
  "\<not> streaming opened_device
   \<and> start_failure_of usb_alt_fails = Some AltSettingFailure
   \<and> start_failure_of usb_write_fails = Some HandshakeWriteFailure
   \<and> fst (camera_start_streaming usb_alt_fails opened_device) \<noteq> CAMERA_SUCCESS
   \<and> \<not> streaming (snd (snd (camera_start_streaming usb_alt_fails opened_device)))
   \<and> surfaced (camera_start_streaming usb_alt_fails opened_device)
        \<noteq> surfaced (camera_start_streaming usb_write_fails opened_device)"
proof -
  have a: "\<not> streaming opened_device" by (simp add: opened_device_def)
  have b: "start_failure_of usb_alt_fails = Some AltSettingFailure"
    "start_failure_of usb_write_fails = Some HandshakeWriteFailure"
    by (simp_all add: start_failure_of_def usb_alt_fails_def usb_write_fails_def)
  show ?thesis
    using start_failure_stopped_and_distinct [OF a a, of usb_alt_fails usb_write_fails] a b
    by simp
qed

text \<open>
  C9. Call a device well formed when every slot that is marked ready holds bytes that
  start with \<^verbatim>\<open>FF D8\<close> and end with \<^verbatim>\<open>FF D9\<close>, with a size of at least
  \<^verbatim>\<open>MIN_JPEG_SIZE\<close> and at most the slot's capacity. On a well-formed device,
  \<^verbatim>\<open>process_data\<close> (for any packet of a transport read and any answer of the
  allocator), \<^verbatim>\<open>camera_read_frame\<close>, \<^verbatim>\<open>camera_stop_streaming\<close> and
  \<^verbatim>\<open>camera_start_streaming\<close> all leave the device well formed, and the bytes of
  every successful \<^verbatim>\<open>camera_read_frame\<close> are such a byte string.
\<close>

theorem ready_slots_stay_well_formed:
  assumes "dev_ok dev" and "ready_slots_ok dev"
  shows "(length pkt \<le> BUFFER_SIZE \<longrightarrow>
            (\<exists>dev'. process_data env dev pkt = Some dev' \<and> dev_ok dev' \<and> ready_slots_ok dev'))
       \<and> camera_read_frame dev buffer_size timeout_ms wait_failure \<noteq> Faults
       \<and> (\<forall>st bytes msg dev'.
             camera_read_frame dev buffer_size timeout_ms wait_failure = Returns (st, bytes, msg, dev')
             \<longrightarrow> dev_ok dev' \<and> ready_slots_ok dev'
                 \<and> (st = CAMERA_SUCCESS \<longrightarrow>
                       jpeg_bytes bytes \<and> MIN_JPEG_SIZE \<le> length bytes
                       \<and> length bytes \<le> BUFFER_SIZE))
       \<and> dev_ok (camera_stop_streaming dev) \<and> ready_slots_ok (camera_stop_streaming dev)
       \<and> dev_ok (snd (snd (camera_start_streaming uenv dev)))
       \<and> ready_slots_ok (snd (snd (camera_start_streaming uenv dev)))"
proof -
  have 1: "length pkt \<le> BUFFER_SIZE \<longrightarrow>
            (\<exists>dev'. process_data env dev pkt = Some dev' \<and> dev_ok dev' \<and> ready_slots_ok dev')"
    using process_data_ready_slots [OF assms, of pkt env] by simp
  have 2: "dev_ok (snd (snd (camera_start_streaming uenv dev)))"
    "ready_slots_ok (snd (snd (camera_start_streaming uenv dev)))"
    using assms by (simp_all add: dev_ok_def ready_slots_ok_def start_keeps_frames)
  show ?thesis
    using 1 2 read_frame_ready_slots [OF assms] stop_ready_slots [OF assms(1)] assms(2)
    by blast
qed

theorem ready_slots_stay_well_formed_witness:
  "dev_ok ready_device \<and> ready_slots_ok ready_device \<and> length example_header \<le> BUFFER_SIZE
   \<and> (\<exists>dev'. process_data all_ok ready_device example_header = Some dev'
          \<and> dev_ok dev' \<and> ready_slots_ok dev')
   \<and> (\<exists>dev'. camera_read_frame ready_device 1000 0 None
                  = Returns (CAMERA_SUCCESS, example_jpeg, None, dev')
          \<and> dev_ok dev' \<and> ready_slots_ok dev')
   \<and> jpeg_bytes example_jpeg \<and> MIN_JPEG_SIZE \<le> length example_jpeg
   \<and> dev_ok (camera_stop_streaming ready_device)
   \<and> ready_slots_ok (camera_stop_streaming ready_device)"
proof -
  have r: "\<exists>dev'. camera_read_frame ready_device 1000 0 None
                  = Returns (CAMERA_SUCCESS, example_jpeg, None, dev')"
    using read_loop_ready [OF ready_device_ok, of 1000 0 None]
    by (simp add: camera_read_frame_def ready_device_slot content_def example_jpeg_length)
  show ?thesis
    using ready_slots_stay_well_formed [OF ready_device_ok ready_device_slots_ok,
        of example_header all_ok 1000 0 None] r header_short ready_device_ok ready_device_slots_ok
    by auto
qed

text \<open>
  C7. For every well-formed device, every answer of the allocator and every packet
  with the vendor magic that one transport read can deliver (at most
  \<^verbatim>\<open>BUFFER_SIZE\<close> bytes), \<^verbatim>\<open>process_data\<close> performs no copy outside a slot's
  block (the model returns \<open>None\<close> for such a copy), and afterwards the size of every
  slot is at most its capacity. If appending the payload to what the write slot holds
  would exceed the slot capacity \<^verbatim>\<open>BUFFER_SIZE\<close>, the write slot is left not
  ready and holds exactly the payload when the payload starts with \<^verbatim>\<open>FF D8\<close>, and
  nothing otherwise.
\<close>

theorem overflow_resets_and_bounds_slot:
  assumes "dev_ok dev" and "valid_magic pkt" and "length pkt \<le> BUFFER_SIZE"
  shows "\<exists>dev'. process_data env dev pkt = Some dev'
           \<and> list_all (\<lambda>f. size_f f \<le> capacity f) (frames dev')
           \<and> (HEADER_SIZE < length pkt \<and> BUFFER_SIZE < length (accumulated dev pkt) \<longrightarrow>
                write_frame dev' = write_frame dev
                \<and> \<not> ready (frames dev' ! write_frame dev)
                \<and> content (frames dev' ! write_frame dev)
                     = (if has_soi (drop HEADER_SIZE pkt) then drop HEADER_SIZE pkt else [])
                \<and> size_f (frames dev' ! write_frame dev)
                     = (if has_soi (drop HEADER_SIZE pkt) then length pkt - HEADER_SIZE else 0))"
proof -
  have pl: "length pkt \<le> BUFFER_SIZE + HEADER_SIZE" using assms(3) by simp
  obtain dev' where d: "process_data env dev pkt = Some dev'" "dev_ok dev'"
    using process_data_total [OF assms(1) pl, of env] by blast
  have w: "write_frame dev < length (frames dev)" using assms(1) by (simp add: dev_ok_def)
  have sz: "list_all (\<lambda>f. size_f f \<le> capacity f) (frames dev')"
    using d(2) by (auto simp: dev_ok_def list_all_length frame_ok_size_le)
  have "HEADER_SIZE < length pkt \<and> BUFFER_SIZE < length (accumulated dev pkt) \<longrightarrow>
                write_frame dev' = write_frame dev
                \<and> \<not> ready (frames dev' ! write_frame dev)
                \<and> content (frames dev' ! write_frame dev)
                     = (if has_soi (drop HEADER_SIZE pkt) then drop HEADER_SIZE pkt else [])
                \<and> size_f (frames dev' ! write_frame dev)
                     = (if has_soi (drop HEADER_SIZE pkt) then length pkt - HEADER_SIZE else 0)"
    using assms(1)
  proof (cases rule: process_data_cases [where pkt = pkt and env = env])
    case skip
    then have "data (frames dev ! write_frame dev) = None" using assms(2) by simp
    then have "accumulated dev pkt = drop HEADER_SIZE pkt"
      by (simp add: accumulated_def carried_def content_def)
    then have "\<not> BUFFER_SIZE < length (accumulated dev pkt)" using assms(3) by simp
    then show ?thesis by blast
  next
    case (short f1)
    then show ?thesis by simp
  next
    case long
    then show ?thesis using assms(3) by simp
  next
    case (overflow f')
    have "frames dev' ! write_frame dev = f'"
      using overflow(4) d(1) w by (auto simp: store_frame_def)
    moreover have "write_frame dev' = write_frame dev"
      using overflow(4) d(1) by (auto simp: store_frame_def)
    moreover have "size_f f' = length (content f')"
      using overflow(5) by (simp add: frame_ok_content_length)
    ultimately show ?thesis using overflow(6,7) by simp
  next
    case (append f')
    then show ?thesis by simp
  next
    case (complete c dev'')
    then show ?thesis by simp
  qed
  then show ?thesis using d(1) sz by blast
qed

theorem overflow_resets_and_bounds_slot_witness:
  "dev_ok filling_device \<and> valid_magic zero_packet \<and> length zero_packet \<le> BUFFER_SIZE
   \<and> HEADER_SIZE < length zero_packet
   \<and> BUFFER_SIZE < length (accumulated filling_device zero_packet)
   \<and> (\<exists>dev'. process_data all_ok filling_device zero_packet = Some dev'
          \<and> list_all (\<lambda>f. size_f f \<le> capacity f) (frames dev')
          \<and> write_frame dev' = 0 \<and> \<not> ready (frames dev' ! 0)
          \<and> content (frames dev' ! 0) = [] \<and> size_f (frames dev' ! 0) = 0)"
proof -
  have h: "length zero_packet \<le> BUFFER_SIZE" "HEADER_SIZE < length zero_packet"
    "BUFFER_SIZE < length (accumulated filling_device zero_packet)"
    by (simp_all add: zero_packet_facts filling_accumulated BUFFER_SIZE_def HEADER_SIZE_def)
  show ?thesis
    using overflow_resets_and_bounds_slot [OF filling_device_ok zero_packet_facts(1) h(1), of all_ok]
      h filling_device_ok zero_packet_facts
    by (simp add: filling_device_slot)
qed

text \<open>
  C4, as stated, fails: after a session has been started, has completed one frame and
  has been stopped, \<^verbatim>\<open>camera_get_stats\<close> reports one captured frame, not zero.
\<close>

theorem stats_survive_stop_counterexample:
  "map_option (camera_get_stats \<circ> camera_stop_streaming)
     (feed started_device [(all_ok, example_packet)]) = Some (CAMERA_SUCCESS, 1, 0)"
proof -
  obtain dev' where d: "process_data all_ok started_device example_packet = Some dev'"
    "completion_effect all_ok started_device example_jpeg [] dev'"
    using started_one_frame by blast
  have "frames_captured dev' = 1" "frames_dropped dev' = 0"
    using d(2) by (simp_all add: completion_effect_def started_device_fields MAX_FRAMES_def)
  then show ?thesis
    using d(1) by (simp add: camera_get_stats_def camera_stop_streaming_def)
qed

text \<open>
  C4, amended. Both counters are zero when the session is opened. Neither
  \<^verbatim>\<open>camera_stop_streaming\<close> nor \<^verbatim>\<open>camera_start_streaming\<close> nor
  \<^verbatim>\<open>camera_read_frame\<close> changes them, so \<^verbatim>\<open>camera_get_stats\<close> reports the same
  values after a stop or start as before it. One call of \<^verbatim>\<open>process_data\<close> leaves
  each counter unchanged or adds one to it (modulo \<open>2^32\<close>).
\<close>

theorem stats_kept_across_stop_and_start:
  "camera_get_stats opened_device = (CAMERA_SUCCESS, 0, 0)
   \<and> camera_get_stats (camera_stop_streaming dev) = camera_get_stats dev
   \<and> camera_get_stats (snd (snd (camera_start_streaming uenv dev))) = camera_get_stats dev
   \<and> (\<forall>st bytes msg dev'.
         camera_read_frame dev buffer_size timeout_ms wait_failure = Returns (st, bytes, msg, dev')
         \<longrightarrow> camera_get_stats dev' = camera_get_stats dev)
   \<and> (dev_ok dev \<and> length pkt \<le> BUFFER_SIZE \<longrightarrow>
        (\<exists>dev'. process_data env dev pkt = Some dev'
           \<and> (frames_captured dev' = frames_captured dev
                \<or> frames_captured dev' = frames_captured dev + 1)
           \<and> (frames_dropped dev' = frames_dropped dev
                \<or> frames_dropped dev' = frames_dropped dev + 1)))"
proof -
  have 1: "camera_get_stats opened_device = (CAMERA_SUCCESS, 0, 0)"
    by (simp add: camera_get_stats_def opened_device_def)
  have 2: "camera_get_stats (camera_stop_streaming dev) = camera_get_stats dev"
    by (simp add: camera_get_stats_def camera_stop_streaming_def)
  have 3: "camera_get_stats (snd (snd (camera_start_streaming uenv dev))) = camera_get_stats dev"
    by (simp add: camera_get_stats_def start_keeps_frames)
  have 4: "\<forall>st bytes msg dev'.
         camera_read_frame dev buffer_size timeout_ms wait_failure = Returns (st, bytes, msg, dev')
         \<longrightarrow> camera_get_stats dev' = camera_get_stats dev"
  proof (intro allI impI)
    fix st bytes msg dev'
    assume r: "camera_read_frame dev buffer_size timeout_ms wait_failure = Returns (st, bytes, msg, dev')"
    have "frames_captured dev' = frames_captured dev \<and> frames_dropped dev' = frames_dropped dev"
      using r
    proof (induction dev buffer_size timeout_ms wait_failure rule: camera_read_frame_loop.induct)
      case (1 dev buffer_size timeout_ms wait_failure)
      show ?case
      proof (cases "streaming dev")
        case False
        then show ?thesis using "1.prems" by (auto simp: camera_read_frame_def)
      next
        case True
        then have l: "camera_read_frame_loop dev buffer_size timeout_ms wait_failure
            = Returns (st, bytes, msg, dev')"
          using "1.prems" by (simp add: camera_read_frame_def)
        show ?thesis
        proof (cases "read_frame dev < length (frames dev)
            \<and> \<not> ready (frames dev ! read_frame dev) \<and> wait_failure = None \<and> frame_ready_event dev")
          case True
          then have "camera_read_frame (dev\<lparr>frame_ready_event := False\<rparr>) buffer_size timeout_ms wait_failure
              = Returns (st, bytes, msg, dev')"
            using l \<open>streaming dev\<close>
            by (simp add: camera_read_frame_loop.simps [of dev] camera_read_frame_def)
          then show ?thesis using "1.IH" True by simp
        next
          case False
          then show ?thesis using l
            by (auto simp: camera_read_frame_loop.simps [of dev] store_frame_def
                split: if_splits option.splits)
        qed
      qed
    qed
    then show "camera_get_stats dev' = camera_get_stats dev"
      by (simp add: camera_get_stats_def)
  qed
  have 5: "dev_ok dev \<and> length pkt \<le> BUFFER_SIZE \<longrightarrow>
        (\<exists>dev'. process_data env dev pkt = Some dev'
           \<and> (frames_captured dev' = frames_captured dev
                \<or> frames_captured dev' = frames_captured dev + 1)
           \<and> (frames_dropped dev' = frames_dropped dev
                \<or> frames_dropped dev' = frames_dropped dev + 1))"
    using process_data_counters [of dev pkt env] by blast
  show ?thesis using 1 2 3 4 5 by blast
qed

theorem stats_kept_across_stop_and_start_witness:
  "dev_ok started_device \<and> length example_packet \<le> BUFFER_SIZE
   \<and> camera_get_stats (camera_stop_streaming started_device) = (CAMERA_SUCCESS, 0, 0)
   \<and> (\<exists>dev'. process_data all_ok started_device example_packet = Some dev'
          \<and> frames_captured dev' = 1 \<and> frames_dropped dev' = 0)
   \<and> (\<exists>dev'. camera_read_frame ready_device 1000 0 None
                  = Returns (CAMERA_SUCCESS, example_jpeg, None, dev')
          \<and> camera_get_stats dev' = camera_get_stats ready_device)"
proof -
  obtain dev' where d: "process_data all_ok started_device example_packet = Some dev'"
    "completion_effect all_ok started_device example_jpeg [] dev'"
    using started_one_frame by blast
  have c: "frames_dropped dev' = 0"
    using d(2) by (simp add: completion_effect_def started_device_fields MAX_FRAMES_def)
  obtain dev'' where r: "camera_read_frame ready_device 1000 0 None
                  = Returns (CAMERA_SUCCESS, example_jpeg, None, dev'')"
    using read_loop_ready [OF ready_device_ok, of 1000 0 None]
    by (simp add: camera_read_frame_def ready_device_slot content_def example_jpeg_length)
  have t1: "camera_get_stats (camera_stop_streaming started_device) = (CAMERA_SUCCESS, 0, 0)"
    and t2: "frames_captured dev' = 1"
    and t3: "camera_get_stats dev'' = camera_get_stats ready_device"
    using stats_kept_across_stop_and_start
      [of started_device usb_ok 1000 0 None example_packet all_ok]
      stats_kept_across_stop_and_start
      [of ready_device usb_ok 1000 0 None example_packet all_ok]
      d(1) d(2) r started_device_ok example_packet_facts(4)
    by (auto simp: camera_get_stats_def started_device_fields completion_effect_def)
  show ?thesis
    using t1 t2 t3 c d(1) r started_device_ok example_packet_facts(4) by blast
qed

text \<open>
  C6, as stated, fails: the scan does not stop at the first occurrence of the end
  marker. For the 1000 bytes \<^verbatim>\<open>FF D8 FF D9 00 ... 00 FF D9\<close> in one packet the first
  occurrence ends at offset 3, its candidate is too short, and the rule of the
  specification accepts nothing; the code goes on to the occurrence at offset 999 and
  marks the whole 1000 bytes ready.
\<close>

theorem scan_passes_first_eoi_counterexample:
  "first_eoi_from early_eoi_jpeg 1 = Some 3
   \<and> spec_first_match early_eoi_jpeg = None
   \<and> map_option (\<lambda>d. (ready (frames d ! 0), content (frames d ! 0)))
        (process_data all_ok started_device early_eoi_packet) = Some (True, early_eoi_jpeg)"
proof -
  have al: "data (frames started_device ! write_frame started_device) \<noteq> None \<or> malloc_frame all_ok"
    by (simp add: all_ok_def)
  have ov: "length (accumulated started_device early_eoi_packet) \<le> BUFFER_SIZE"
    by (simp add: early_eoi_packet_def started_accumulated_any early_eoi_length BUFFER_SIZE_def)
  have len: "HEADER_SIZE < length early_eoi_packet"
    by (simp add: early_eoi_packet_def example_header_magic(2) early_eoi_length)
  have vm: "valid_magic early_eoi_packet" by (simp add: early_eoi_packet_def header_facts)
  obtain d where d: "process_data all_ok started_device early_eoi_packet = Some d"
    "completion_effect all_ok started_device early_eoi_jpeg [] d"
    using process_data_by_first_accepted_end [OF started_device_ok vm len al ov]
    by (auto simp: early_eoi_packet_def started_accumulated_any early_eoi_end early_eoi_length)
  have "ready (frames d ! 0)" "content (frames d ! 0) = early_eoi_jpeg"
    using d(2) by (simp_all add: completion_effect_def started_device_fields)
  moreover have "spec_first_match early_eoi_jpeg = None"
    by (simp add: spec_first_match_def early_eoi_first [unfolded One_nat_def] MIN_JPEG_SIZE_def)
  ultimately show ?thesis using d(1) early_eoi_first by simp
qed

text \<open>
  C6, amended. Let a packet with the vendor magic carry a non-empty payload, let the
  write slot not be ready and have its block (or get it), and let the payload fit, so
  that it is appended; let \<open>s\<close> be the bytes the slot then holds. The scan passes over
  every end marker that ends before offset \<^verbatim>\<open>MIN_JPEG_SIZE - 1\<close>. The slot is marked
  ready in this call exactly when \<open>s\<close> starts with \<^verbatim>\<open>FF D8\<close> and an end marker ends
  at some offset \<open>i\<close> with \<^verbatim>\<open>MIN_JPEG_SIZE - 1 <= i\<close>; the accepted frame is then
  \<open>s[0 .. i]\<close> for the first such \<open>i\<close>, and no longer frame is accepted in this call.
\<close>

theorem first_long_enough_eoi_is_accepted:
  assumes "dev_ok dev" and "valid_magic pkt" and "HEADER_SIZE < length pkt"
    and "data (frames dev ! write_frame dev) \<noteq> None \<or> malloc_frame env"
    and "\<not> ready (frames dev ! write_frame dev)"
    and "length (accumulated dev pkt) \<le> BUFFER_SIZE"
  shows "\<exists>dev'. process_data env dev pkt = Some dev'
           \<and> (ready (frames dev' ! write_frame dev)
                \<longleftrightarrow> first_accepted_end (accumulated dev pkt) \<noteq> None)
           \<and> (\<forall>c. first_accepted_end (accumulated dev pkt) = Some c \<longrightarrow>
                  content (frames dev' ! write_frame dev) = take c (accumulated dev pkt)
                  \<and> write_frame dev' = (write_frame dev + 1) mod MAX_FRAMES
                  \<and> frames_captured dev' = frames_captured dev + 1)
           \<and> (first_accepted_end (accumulated dev pkt) = None \<longrightarrow>
                  write_frame dev' = write_frame dev
                  \<and> frames_captured dev' = frames_captured dev)
           \<and> (\<forall>c. first_accepted_end (accumulated dev pkt) = Some c \<longleftrightarrow>
                  accumulated dev pkt ! 0 = 0xFF \<and> accumulated dev pkt ! 1 = 0xD8
                  \<and> MIN_JPEG_SIZE \<le> c \<and> c \<le> length (accumulated dev pkt)
                  \<and> eoi_at (accumulated dev pkt) (c - 1)
                  \<and> (\<forall>j. MIN_JPEG_SIZE - 1 \<le> j \<and> j < c - 1 \<longrightarrow> \<not> eoi_at (accumulated dev pkt) j))"
proof -
  define s where "s = accumulated dev pkt"
  have w: "write_frame dev < length (frames dev)" using assms(1) by (simp add: dev_ok_def)
  have ch: "\<forall>c. first_accepted_end s = Some c \<longleftrightarrow>
                  s ! 0 = 0xFF \<and> s ! 1 = 0xD8
                  \<and> MIN_JPEG_SIZE \<le> c \<and> c \<le> length s
                  \<and> eoi_at s (c - 1)
                  \<and> (\<forall>j. MIN_JPEG_SIZE - 1 \<le> j \<and> j < c - 1 \<longrightarrow> \<not> eoi_at s j)"
  proof (intro allI iffI)
    fix c assume "first_accepted_end s = Some c"
    then obtain i where "s ! 0 = 0xFF \<and> s ! 1 = 0xD8" "c = Suc i"
      "first_eoi_from s (MIN_JPEG_SIZE - 1) = Some i"
      by (auto simp: first_accepted_end_def split: if_splits)
    then show "s ! 0 = 0xFF \<and> s ! 1 = 0xD8
                  \<and> MIN_JPEG_SIZE \<le> c \<and> c \<le> length s
                  \<and> eoi_at s (c - 1)
                  \<and> (\<forall>j. MIN_JPEG_SIZE - 1 \<le> j \<and> j < c - 1 \<longrightarrow> \<not> eoi_at s j)"
      by (auto simp: first_eoi_from_Some)
  next
    fix c assume a: "s ! 0 = 0xFF \<and> s ! 1 = 0xD8
                  \<and> MIN_JPEG_SIZE \<le> c \<and> c \<le> length s
                  \<and> eoi_at s (c - 1)
                  \<and> (\<forall>j. MIN_JPEG_SIZE - 1 \<le> j \<and> j < c - 1 \<longrightarrow> \<not> eoi_at s j)"
    then have c: "MIN_JPEG_SIZE \<le> c" "c \<le> length s" by blast+
    then have "0 < c" by (simp add: MIN_JPEG_SIZE_def)
    then have "first_eoi_from s (MIN_JPEG_SIZE - 1) = Some (c - 1)" "Suc (c - 1) = c"
      using a c unfolding first_eoi_from_Some by auto
    then show "first_accepted_end s = Some c"
      using a by (simp add: first_accepted_end_def)
  qed
  show ?thesis
  proof (cases "first_accepted_end s")
    case None
    obtain f' where f': "process_data env dev pkt = Some (store_frame dev (write_frame dev) f')"
      "ready f' = ready (frames dev ! write_frame dev)"
      using process_data_by_first_accepted_end [OF assms(1-4,6)] None by (auto simp: s_def)
    define dev' where "dev' = store_frame dev (write_frame dev) f'"
    have 1: "process_data env dev pkt = Some dev'" using f'(1) by (simp add: dev'_def)
    have 2: "ready (frames dev' ! write_frame dev) \<longleftrightarrow> first_accepted_end s \<noteq> None"
      using f'(2) assms(5) w None by (simp add: store_frame_fields dev'_def)
    have 3: "\<forall>c. first_accepted_end s = Some c \<longrightarrow>
                  content (frames dev' ! write_frame dev) = take c s
                  \<and> write_frame dev' = (write_frame dev + 1) mod MAX_FRAMES
                  \<and> frames_captured dev' = frames_captured dev + 1"
      using None by simp
    have 4: "first_accepted_end s = None \<longrightarrow>
                  write_frame dev' = write_frame dev
                  \<and> frames_captured dev' = frames_captured dev"
      by (simp add: store_frame_fields dev'_def)
    show ?thesis
      unfolding s_def [symmetric]
      by (intro exI [of _ dev'] conjI) (rule 1 2 3 4 ch)+
  next
    case (Some c)
    obtain dev' where d: "process_data env dev pkt = Some dev'"
      "completion_effect env dev (take c s) (drop c s) dev'"
      using process_data_by_first_accepted_end [OF assms(1-4,6)] Some by (auto simp: s_def)
    have 2: "ready (frames dev' ! write_frame dev) \<longleftrightarrow> first_accepted_end s \<noteq> None"
      using d(2) Some by (simp add: completion_effect_def)
    have 3: "\<forall>c. first_accepted_end s = Some c \<longrightarrow>
                  content (frames dev' ! write_frame dev) = take c s
                  \<and> write_frame dev' = (write_frame dev + 1) mod MAX_FRAMES
                  \<and> frames_captured dev' = frames_captured dev + 1"
      using d(2) Some by (simp add: completion_effect_def)
    have 4: "first_accepted_end s = None \<longrightarrow>
                  write_frame dev' = write_frame dev
                  \<and> frames_captured dev' = frames_captured dev"
      using Some by simp
    show ?thesis
      unfolding s_def [symmetric]
      by (intro exI [of _ dev'] conjI) (rule d(1) 2 3 4 ch)+
  qed
qed

theorem first_long_enough_eoi_is_accepted_witness:
  "dev_ok started_device \<and> valid_magic early_eoi_packet \<and> HEADER_SIZE < length early_eoi_packet
   \<and> malloc_frame all_ok
   \<and> \<not> ready (frames started_device ! write_frame started_device)
   \<and> length (accumulated started_device early_eoi_packet) \<le> BUFFER_SIZE
   \<and> first_accepted_end (accumulated started_device early_eoi_packet) = Some 1000
   \<and> (\<exists>dev'. process_data all_ok started_device early_eoi_packet = Some dev'
          \<and> ready (frames dev' ! 0) \<and> content (frames dev' ! 0) = early_eoi_jpeg
          \<and> write_frame dev' = 1 \<and> frames_captured dev' = 1)"
proof -
  have al: "data (frames started_device ! write_frame started_device) \<noteq> None \<or> malloc_frame all_ok"
    and m: "malloc_frame all_ok"
    by (simp_all add: all_ok_def)
  have acc: "accumulated started_device early_eoi_packet = early_eoi_jpeg"
    by (simp add: early_eoi_packet_def started_accumulated_any)
  have ov: "length (accumulated started_device early_eoi_packet) \<le> BUFFER_SIZE"
    by (simp add: acc early_eoi_length BUFFER_SIZE_def)
  have len: "HEADER_SIZE < length early_eoi_packet"
    by (simp add: early_eoi_packet_def example_header_magic(2) early_eoi_length)
  have vm: "valid_magic early_eoi_packet" by (simp add: early_eoi_packet_def header_facts)
  have nr: "\<not> ready (frames started_device ! write_frame started_device)"
    by (simp add: started_write_slot empty_frame_def)
  have fe: "first_accepted_end (accumulated started_device early_eoi_packet) = Some 1000"
    by (simp add: acc early_eoi_end)
  have "\<exists>dev'. process_data all_ok started_device early_eoi_packet = Some dev'
          \<and> ready (frames dev' ! 0) \<and> content (frames dev' ! 0) = early_eoi_jpeg
          \<and> write_frame dev' = 1 \<and> frames_captured dev' = 1"
    using first_long_enough_eoi_is_accepted [OF started_device_ok vm len al nr ov]
    unfolding acc early_eoi_end
    by (auto simp: early_eoi_length started_device_fields MAX_FRAMES_def)
  then show ?thesis using started_device_ok vm len m nr ov fe by blast
qed

text \<open>
  C8, as stated, fails: a leftover that starts with \<^verbatim>\<open>FF D8\<close> but is longer than
  \<^verbatim>\<open>MAX_JPEG_SIZE\<close> is copied into the next write slot and discarded again by the
  final safety check of the same call. Here a 1000-byte frame is followed, in the same
  packet, by 61502 bytes that start with the start marker; the frame is accepted and
  the next write slot is empty.
\<close>

theorem long_leftover_is_dropped_counterexample:
  "has_soi long_tail
   \<and> map_option (\<lambda>d. (ready (frames d ! 0), content (frames d ! 0), write_frame d,
                       content (frames d ! 1)))
        (process_data all_ok started_device long_tail_packet) = Some (True, example_jpeg, 1, [])"
proof -
  obtain d where d: "process_data all_ok started_device long_tail_packet = Some d"
    "completion_effect all_ok started_device example_jpeg long_tail d"
    using started_jpeg_then_tail [of long_tail]
    by (auto simp: long_tail_packet_def long_tail_facts)
  have "leftover_kept all_ok empty_frame long_tail = []"
    by (simp add: leftover_kept_def long_tail_facts MAX_JPEG_SIZE_def BUFFER_SIZE_def)
  then have "ready (frames d ! 0)" "content (frames d ! 0) = example_jpeg" "write_frame d = 1"
    "content (frames d ! 1) = []"
    using d(2)
    by (simp_all add: completion_effect_def started_device_fields MAX_FRAMES_def)
  then show ?thesis using d(1) long_tail_facts(1) by simp
qed

text \<open>
  C8, amended. When a call of \<^verbatim>\<open>process_data\<close> accepts a frame, the bytes behind it
  in the slot become the content of the next write slot exactly when their first two
  bytes are \<^verbatim>\<open>FF D8\<close>, they are at most \<^verbatim>\<open>MAX_JPEG_SIZE\<close> bytes long, and the
  allocations for the copy succeed (the scratch copy, and the block of the next slot
  when it has none yet); otherwise the next write slot starts empty. In both cases it
  is not ready.
\<close>

theorem leftover_kept_iff_soi_and_fits:
  assumes "dev_ok dev" and "valid_magic pkt" and "HEADER_SIZE < length pkt"
    and "data (frames dev ! write_frame dev) \<noteq> None \<or> malloc_frame env"
    and "length (accumulated dev pkt) \<le> BUFFER_SIZE"
    and "first_accepted_end (accumulated dev pkt) = Some c"
  shows "\<exists>dev'. process_data env dev pkt = Some dev'
           \<and> ready (frames dev' ! write_frame dev)
           \<and> content (frames dev' ! write_frame dev) = take c (accumulated dev pkt)
           \<and> write_frame dev' = (write_frame dev + 1) mod MAX_FRAMES
           \<and> \<not> ready (frames dev' ! write_frame dev')
           \<and> content (frames dev' ! write_frame dev')
                = (if has_soi (drop c (accumulated dev pkt))
                      \<and> length (drop c (accumulated dev pkt)) \<le> MAX_JPEG_SIZE
                      \<and> malloc_leftover env
                      \<and> (data (frames dev ! ((write_frame dev + 1) mod MAX_FRAMES)) \<noteq> None
                           \<or> malloc_next env)
                   then drop c (accumulated dev pkt) else [])"
proof -
  obtain dev' where d: "process_data env dev pkt = Some dev'"
    "completion_effect env dev (take c (accumulated dev pkt)) (drop c (accumulated dev pkt)) dev'"
    using process_data_by_first_accepted_end [OF assms(1-5)] assms(6) by auto
  show ?thesis
    using d by (intro exI [of _ dev']) (auto simp: completion_effect_def leftover_kept_def)
qed

theorem leftover_kept_iff_soi_and_fits_witness:
  "dev_ok started_device \<and> valid_magic short_tail_packet
   \<and> HEADER_SIZE < length short_tail_packet \<and> malloc_frame all_ok
   \<and> length (accumulated started_device short_tail_packet) \<le> BUFFER_SIZE
   \<and> first_accepted_end (accumulated started_device short_tail_packet) = Some 1000
   \<and> (\<exists>dev'. process_data all_ok started_device short_tail_packet = Some dev'
          \<and> ready (frames dev' ! 0) \<and> content (frames dev' ! 0) = example_jpeg
          \<and> write_frame dev' = 1 \<and> \<not> ready (frames dev' ! 1)
          \<and> content (frames dev' ! 1) = [0xFF, 0xD8, 0x01])"
proof -
  have al: "data (frames started_device ! write_frame started_device) \<noteq> None \<or> malloc_frame all_ok"
    and m: "malloc_frame all_ok"
    by (simp_all add: all_ok_def)
  have acc: "accumulated started_device short_tail_packet = example_jpeg @ [0xFF, 0xD8, 0x01]"
    by (simp add: short_tail_packet_def started_accumulated_any)
  have ov: "length (accumulated started_device short_tail_packet) \<le> BUFFER_SIZE"
    by (simp add: acc example_jpeg_length BUFFER_SIZE_def)
  have len: "HEADER_SIZE < length short_tail_packet"
    by (simp add: short_tail_packet_def example_header_magic(2) example_jpeg_length)
  have vm: "valid_magic short_tail_packet" by (simp add: short_tail_packet_def header_facts)
  have fe: "first_accepted_end (accumulated started_device short_tail_packet) = Some 1000"
    by (simp only: acc example_jpeg_then_tail)
  have "\<exists>dev'. process_data all_ok started_device short_tail_packet = Some dev'
          \<and> ready (frames dev' ! 0) \<and> content (frames dev' ! 0) = example_jpeg
          \<and> write_frame dev' = 1 \<and> \<not> ready (frames dev' ! 1)
          \<and> content (frames dev' ! 1) = [0xFF, 0xD8, 0x01]"
    using leftover_kept_iff_soi_and_fits [OF started_device_ok vm len al ov fe]
    unfolding acc
    by (auto simp: example_jpeg_length started_device_fields MAX_FRAMES_def has_soi_def
        MAX_JPEG_SIZE_def BUFFER_SIZE_def all_ok_def)
  then show ?thesis using started_device_ok vm len m ov fe by blast
qed

text \<open>
  C2, as stated. When the producer completes \<open>K > N\<close> frames (\<open>N = MAX_FRAMES = 12\<close>)
  and no read consumes any of them, \<^verbatim>\<open>frames_dropped\<close> is \<open>K - N\<close> and the next
  successful \<^verbatim>\<open>camera_read_frame\<close> returns the \<open>(K - N + 1)\<close>-th completed frame.
  This fails: the ring hands the slot of the oldest unread frame to the producer as
  soon as the slot before it is completed, so only \<open>N - 1\<close> completed frames are
  kept. After 13 frames and no read, two frames have been dropped, and the read
  returns the third frame, not the second.
\<close>

theorem ring_keeps_one_less_counterexample:
  "map_option (\<lambda>d. (frames_captured d, frames_dropped d,
                      read_result (camera_read_frame d BUFFER_SIZE 0 None)))
     (feed started_device (numbered_packets [1 ..< 14]))
     = Some (13, 2, Some (CAMERA_SUCCESS, numbered_jpeg 3))
   \<and> completed_frames started_device (numbered_packets [1 ..< 14]) = map numbered_jpeg [1 ..< 14]
   \<and> numbered_jpeg 3 \<noteq> numbered_jpeg 2"
proof -
  have "numbered_jpeg 3 \<noteq> numbered_jpeg 2" by (simp add: numbered_jpeg_def)
  then show ?thesis
    using numbered_run numbered_completed [OF started_ring, of "[1 ..< 14]"] by auto
qed

text \<open>
  C2, amended. Start from a streaming device whose ring is empty (no slot ready, read
  and write index equal) and feed it packets of at most \<^verbatim>\<open>BUFFER_SIZE\<close> bytes
  without reading. If these complete \<open>K\<close> frames, then \<^verbatim>\<open>frames_captured\<close> has
  grown by \<open>K\<close>, \<^verbatim>\<open>frames_dropped\<close> has grown by \<open>K - (N - 1)\<close> (by nothing when
  \<open>K < N\<close>), and, when \<open>K > 0\<close>, the next \<^verbatim>\<open>camera_read_frame\<close> returns at once:
  with \<^verbatim>\<open>CAMERA_SUCCESS\<close> and the bytes of the completed frame number
  \<open>K - (N - 1) + 1\<close> (for \<open>K \<ge> N\<close> the \<open>(K - N + 2)\<close>-th) when the caller's buffer
  can hold it, with \<^verbatim>\<open>CAMERA_ERROR_BUFFER_SMALL\<close> and no bytes otherwise.
\<close>

theorem ring_drop_accounting:
  assumes "dev_ok dev" and "streaming dev"
    and "list_all (\<lambda>f. \<not> ready f) (frames dev)" and "read_frame dev = write_frame dev"
    and "list_all (\<lambda>ep. length (snd ep) \<le> BUFFER_SIZE) pkts"
  shows "\<exists>dev'. feed dev pkts = Some dev'
     \<and> frames_captured dev' = frames_captured dev + of_nat (length (completed_frames dev pkts))
     \<and> frames_dropped dev'
          = frames_dropped dev + of_nat (length (completed_frames dev pkts) - (MAX_FRAMES - 1))
     \<and> (completed_frames dev pkts \<noteq> [] \<longrightarrow>
          (\<forall>buffer_size timeout_ms wait_failure.
             read_result (camera_read_frame dev' buffer_size timeout_ms wait_failure)
             = (if buffer_size
                     < length (completed_frames dev pkts
                                 ! (length (completed_frames dev pkts) - (MAX_FRAMES - 1)))
                then Some (CAMERA_ERROR_BUFFER_SMALL, [])
                else Some (CAMERA_SUCCESS,
                       completed_frames dev pkts
                         ! (length (completed_frames dev pkts) - (MAX_FRAMES - 1))))))"
proof -
  have "\<forall>ep \<in> set pkts. length (snd ep) \<le> BUFFER_SIZE"
    using assms(5) by (simp add: list_all_iff)
  then show ?thesis by (rule feed_then_read [OF assms(1-4)])
qed

theorem ring_drop_accounting_witness:
  "dev_ok started_device \<and> streaming started_device
   \<and> list_all (\<lambda>f. \<not> ready f) (frames started_device)
   \<and> read_frame started_device = write_frame started_device
   \<and> list_all (\<lambda>ep. length (snd ep) \<le> BUFFER_SIZE) (numbered_packets [1 ..< 14])
   \<and> length (completed_frames started_device (numbered_packets [1 ..< 14])) = 13
   \<and> (\<exists>dev'. feed started_device (numbered_packets [1 ..< 14]) = Some dev'
        \<and> frames_captured dev' = 13 \<and> frames_dropped dev' = 2
        \<and> read_result (camera_read_frame dev' 1000 0 None)
             = Some (CAMERA_SUCCESS, numbered_jpeg 3)
        \<and> read_result (camera_read_frame dev' 999 0 None)
             = Some (CAMERA_ERROR_BUFFER_SMALL, []))"
proof -
  have em: "list_all (\<lambda>f. \<not> ready f) (frames started_device)"
    by (simp add: started_device_fields list_all_length empty_frame_def)
  have rw: "read_frame started_device = write_frame started_device"
    and st: "streaming started_device"
    by (simp_all add: started_device_fields)
  have pk: "list_all (\<lambda>ep. length (snd ep) \<le> BUFFER_SIZE) (numbered_packets [1 ..< 14])"
    using numbered_packets_short [of "[1 ..< 14]"] by (simp add: list_all_iff)
  have cf: "completed_frames started_device (numbered_packets [1 ..< 14]) = map numbered_jpeg [1 ..< 14]"
    by (rule numbered_completed [OF started_ring])
  have l: "length (completed_frames started_device (numbered_packets [1 ..< 14])) = 13"
    unfolding cf by simp
  have "\<exists>dev'. feed started_device (numbered_packets [1 ..< 14]) = Some dev'
        \<and> frames_captured dev' = 13 \<and> frames_dropped dev' = 2
        \<and> read_result (camera_read_frame dev' 1000 0 None)
             = Some (CAMERA_SUCCESS, numbered_jpeg 3)
        \<and> read_result (camera_read_frame dev' 999 0 None)
             = Some (CAMERA_ERROR_BUFFER_SMALL, [])"
    using ring_drop_accounting [OF started_device_ok st em rw pk]
    unfolding cf
    by (auto simp: started_device_fields MAX_FRAMES_def numbered_jpeg_facts numeral_3_eq_3)
  then show ?thesis using started_device_ok st em rw pk l by blast
qed






end
